theory Spec2Isabelle
  imports Complex_Main "HOL-Library.Log_Nat"
begin

section \<open>JavaScript values used by the server\<close>

text \<open>
  A JavaScript number that is not NaN: a finite value or one of the two infinities.
  \<^verbatim>\<open>JSON.parse\<close> never yields NaN, and the one place where \<^verbatim>\<open>parseInt\<close> can
  yield it (the connection handler) tests \<^verbatim>\<open>isNaN\<close> first. Finite doubles are
  rationals; \<open>-0\<close> and \<open>+0\<close> are the one rational \<open>0\<close> (they compare equal and print
  alike). On these values \<^verbatim>\<open><\<close>, \<^verbatim>\<open>Math.min\<close> and \<^verbatim>\<open>Math.max\<close> are the order,
  \<open>min\<close> and \<open>max\<close> of a linear order.
\<close>

datatype jsnum = NegInf | Fin rat | PosInf

instantiation jsnum :: linorder
begin

definition less_eq_jsnum :: "jsnum \<Rightarrow> jsnum \<Rightarrow> bool" where
  "less_eq_jsnum x y =
     (case x of
        NegInf \<Rightarrow> True
      | Fin a \<Rightarrow> (case y of NegInf \<Rightarrow> False | Fin b \<Rightarrow> a \<le> b | PosInf \<Rightarrow> True)
      | PosInf \<Rightarrow> (case y of PosInf \<Rightarrow> True | _ \<Rightarrow> False))"

definition less_jsnum :: "jsnum \<Rightarrow> jsnum \<Rightarrow> bool" where
  "less_jsnum x y = (x \<le> y \<and> \<not> y \<le> (x::jsnum))"

instance
proof
  fix x y z :: jsnum
  show "(x < y) = (x \<le> y \<and> \<not> y \<le> x)"
    by (simp add: less_jsnum_def)
  show "x \<le> x"
    by (cases x) (simp_all add: less_eq_jsnum_def)
  show "x \<le> y \<Longrightarrow> y \<le> z \<Longrightarrow> x \<le> z"
    by (cases x; cases y; cases z) (simp_all add: less_eq_jsnum_def)
  show "x \<le> y \<Longrightarrow> y \<le> x \<Longrightarrow> x = y"
    by (cases x; cases y) (simp_all add: less_eq_jsnum_def)
  show "x \<le> y \<or> y \<le> x"
    by (cases x; cases y) (auto simp: less_eq_jsnum_def)
qed

end

text \<open>
  The values a field of a parsed JSON body can hold, as far as the server looks at them:
  a missing field reads as \<^verbatim>\<open>undefined\<close>; arrays and objects are never inspected.
\<close>

datatype jsval = JUndefined | JNull | JBool bool | JNum jsnum | JStr string | JObj

section \<open>The transaction primitive, seen from its callers\<close>

text \<open>
  \<^verbatim>\<open>sendAndReceive(ip, message)\<close> returns a promise that resolves with the text of the
  first data chunk or rejects with an error. Callers only \<^verbatim>\<open>await\<close> it, so a settled
  call is a value \<open>Inr text\<close> or \<open>Inl reason\<close> (the error's \<^verbatim>\<open>message\<close>). The network is
  an oracle giving the outcome of the \<open>k\<close>-th transaction of a run from its address and
  message, and a log of what was sent; nothing is assumed about the oracle.
\<close>

type_synonym outcome = "string + string"

record net =
  respond :: "nat \<Rightarrow> string \<Rightarrow> string \<Rightarrow> outcome"
  sent :: "(string \<times> string) list"

definition sendAndReceive :: "net \<Rightarrow> string \<Rightarrow> string \<Rightarrow> outcome \<times> net" where
  "sendAndReceive n ip message =
     (respond n (length (sent n)) ip message, n\<lparr>sent := sent n @ [(ip, message)]\<rparr>)"

definition CRLF :: string where
  "CRLF = [CHR 0x0D, CHR 0x0A]"

definition CONTROL :: string where "CONTROL = ''~M601 S1'' @ CRLF"
definition INFO :: string where "INFO = ''~M115'' @ CRLF"
definition HEAD_POSITION :: string where "HEAD_POSITION = ''~M114'' @ CRLF"
definition TEMP :: string where "TEMP = ''~M105'' @ CRLF"
definition PROGRESS :: string where "PROGRESS = ''~M27'' @ CRLF"
definition STATUS :: string where "STATUS = ''~M119'' @ CRLF"
definition LED_ON :: string where "LED_ON = ''~M146 r255 g255 b255'' @ CRLF"
definition LED_OFF :: string where "LED_OFF = ''~M146 r0 g0 b0'' @ CRLF"

section \<open>The LED route\<close>

text \<open>
  \<^verbatim>\<open>app.post('/:ip/led')\<close>: the body's fields \<^verbatim>\<open>state, r, g, b\<close> (the record's
  \<open>body_state\<close>, \<open>body_r\<close>, \<open>body_g\<close>, \<open>body_b\<close>); the unlock transaction first, then the
  LED command chosen from the body. A rejected transaction leaves the \<^verbatim>\<open>try\<close> block,
  so nothing is sent after it. The text of a number inside the template literal is the
  runtime's number-to-string conversion, a parameter here.
\<close>

record led_body =
  body_state :: jsval
  body_r :: jsval
  body_g :: jsval
  body_b :: jsval

definition Math_max :: "jsnum \<Rightarrow> jsnum \<Rightarrow> jsnum" where
  "Math_max x y = max x y"

definition Math_min :: "jsnum \<Rightarrow> jsnum \<Rightarrow> jsnum" where
  "Math_min x y = min x y"

definition led_custom :: "(jsnum \<Rightarrow> string) \<Rightarrow> jsnum \<Rightarrow> jsnum \<Rightarrow> jsnum \<Rightarrow> string" where
  "led_custom numstr x y z =
     ''~M146 r'' @ numstr x @ '' g'' @ numstr y @ '' b'' @ numstr z @ CRLF"

definition led_command :: "(jsnum \<Rightarrow> string) \<Rightarrow> led_body \<Rightarrow> string" where
  "led_command numstr body =
     (if body_state body = JStr ''off'' then LED_OFF
      else case (body_r body, body_g body, body_b body) of
        (JNum x, JNum y, JNum z) \<Rightarrow>
          led_custom numstr
            (Math_min (Fin 255) (Math_max (Fin 0) x))
            (Math_min (Fin 255) (Math_max (Fin 0) y))
            (Math_min (Fin 255) (Math_max (Fin 0) z))
      | _ \<Rightarrow> LED_ON)"

text \<open>The response: \<open>LedOk result\<close> carries the device's reply (the route trims it).\<close>

datatype led_response = LedOk string | LedError string

definition led_route :: "(jsnum \<Rightarrow> string) \<Rightarrow> net \<Rightarrow> string \<Rightarrow> led_body \<Rightarrow> led_response \<times> net" where
  "led_route numstr n ip body =
     (case sendAndReceive n ip CONTROL of
        (Inl e, n1) \<Rightarrow> (LedError e, n1)
      | (Inr _, n1) \<Rightarrow>
          (case sendAndReceive n1 ip (led_command numstr body) of
             (Inl e, n2) \<Rightarrow> (LedError e, n2)
           | (Inr result, n2) \<Rightarrow> (LedOk result, n2)))"






section \<open>Text patterns\<close>

text \<open>
  A reply is a JavaScript string, modelled as the list of its code units (here below 256,
  the device speaks ASCII). The patterns of \<^verbatim>\<open>REGEX_PATTERNS\<close> use only literal
  characters and character classes with the quantifiers \<^verbatim>\<open>? * + +?\<close>, and capture
  groups that are not nested, so a pattern is a list of such items. \<open>rmatch\<close> is the
  backtracking match at one position, in the order JavaScript tries the alternatives (a
  greedy quantifier takes a character first, a lazy one tries the rest of the pattern
  first); \<open>rsearch\<close> is \<^verbatim>\<open>String.prototype.match\<close> for a pattern without flags: the
  captures of the leftmost match, or \<open>None\<close> for \<^verbatim>\<open>null\<close>.
\<close>

datatype quant = One | Opt | Star | Plus | LazyStar | LazyPlus

datatype item = Atom "char \<Rightarrow> bool" quant | GOpen | GClose

fun push :: "char \<Rightarrow> string option \<Rightarrow> string option" where
  "push c None = None"
| "push c (Some grp) = Some (grp @ [c])"

fun rmatch :: "item list \<Rightarrow> string \<Rightarrow> string option \<Rightarrow> string list \<Rightarrow> string list option" where
  "rmatch [] s cur caps = Some caps"
| "rmatch (GOpen # p) s cur caps = rmatch p s (Some []) caps"
| "rmatch (GClose # p) s cur caps =
     rmatch p s None (caps @ [case cur of None \<Rightarrow> [] | Some grp \<Rightarrow> grp])"
| "rmatch (Atom f One # p) s cur caps =
     (case s of [] \<Rightarrow> None
      | c # cs \<Rightarrow> if f c then rmatch p cs (push c cur) caps else None)"
| "rmatch (Atom f Opt # p) s cur caps =
     (case s of [] \<Rightarrow> rmatch p s cur caps
      | c # cs \<Rightarrow>
          if f c then
            (case rmatch p cs (push c cur) caps of
               Some m \<Rightarrow> Some m
             | None \<Rightarrow> rmatch p s cur caps)
          else rmatch p s cur caps)"
| "rmatch (Atom f Star # p) s cur caps =
     (case s of [] \<Rightarrow> rmatch p s cur caps
      | c # cs \<Rightarrow>
          if f c then
            (case rmatch (Atom f Star # p) cs (push c cur) caps of
               Some m \<Rightarrow> Some m
             | None \<Rightarrow> rmatch p s cur caps)
          else rmatch p s cur caps)"
| "rmatch (Atom f Plus # p) s cur caps =
     (case s of [] \<Rightarrow> None
      | c # cs \<Rightarrow> if f c then rmatch (Atom f Star # p) cs (push c cur) caps else None)"
| "rmatch (Atom f LazyStar # p) s cur caps =
     (case rmatch p s cur caps of
        Some m \<Rightarrow> Some m
      | None \<Rightarrow>
          (case s of [] \<Rightarrow> None
           | c # cs \<Rightarrow>
               if f c then rmatch (Atom f LazyStar # p) cs (push c cur) caps else None))"
| "rmatch (Atom f LazyPlus # p) s cur caps =
     (case s of [] \<Rightarrow> None
      | c # cs \<Rightarrow> if f c then rmatch (Atom f LazyStar # p) cs (push c cur) caps else None)"

fun rsearch :: "item list \<Rightarrow> string \<Rightarrow> string list option" where
  "rsearch p [] = rmatch p [] None []"
| "rsearch p (c # cs) =
     (case rmatch p (c # cs) None [] of Some m \<Rightarrow> Some m | None \<Rightarrow> rsearch p cs)"

definition lit :: "string \<Rightarrow> item list" where
  "lit s = map (\<lambda>c. Atom (\<lambda>x. x = c) One) s"

definition ch :: "char \<Rightarrow> quant \<Rightarrow> item" where
  "ch c q = Atom (\<lambda>x. x = c) q"

definition CR :: char where "CR = CHR 0x0D"
definition LF :: char where "LF = CHR 0x0A"

text \<open>\<^verbatim>\<open>\s\<close>, \<^verbatim>\<open>\d\<close>, \<^verbatim>\<open>.\<close>, \<^verbatim>\<open>[\-\d.]\<close>, \<^verbatim>\<open>[0-9A-Fa-f:]\<close> and \<^verbatim>\<open>[^\r\n]\<close> on code units below 256.\<close>

definition is_space :: "char \<Rightarrow> bool" where
  "is_space c = ((of_char c :: nat) \<in> {9, 10, 11, 12, 13, 32, 160})"

definition is_digit :: "char \<Rightarrow> bool" where
  "is_digit c = (48 \<le> (of_char c :: nat) \<and> (of_char c :: nat) \<le> 57)"

definition is_dot :: "char \<Rightarrow> bool" where
  "is_dot c = (c \<noteq> CR \<and> c \<noteq> LF)"

definition is_numch :: "char \<Rightarrow> bool" where
  "is_numch c = (c = CHR ''-'' \<or> is_digit c \<or> c = CHR ''.'')"

definition is_macch :: "char \<Rightarrow> bool" where
  "is_macch c = (is_digit c \<or> (65 \<le> (of_char c :: nat) \<and> (of_char c :: nat) \<le> 70)
                 \<or> (97 \<le> (of_char c :: nat) \<and> (of_char c :: nat) \<le> 102) \<or> c = CHR '':'')"

text \<open>
  \<^verbatim>\<open>REGEX_PATTERNS\<close>. \<open>field\<close> is built from a template literal with doubled
  backslashes: \<^verbatim>\<open>NAME: ?(.+?)\r?\n\<close>. \<open>coordinates\<close> is built from a template literal
  with single backslashes, where \<^verbatim>\<open>\s\<close> is the letter \<open>s\<close>: the pattern it compiles
  is \<^verbatim>\<open>NAME:s*([^s]+)\<close>.
\<close>

definition field :: "string \<Rightarrow> item list" where
  "field fieldName = lit fieldName @
     [ch CHR '':'' One, ch CHR '' '' Opt, GOpen, Atom is_dot LazyPlus, GClose, ch CR Opt, ch LF One]"

definition coordinates :: "string \<Rightarrow> item list" where
  "coordinates fieldName = lit fieldName @
     [ch CHR '':'' One, ch CHR ''s'' Star, GOpen, Atom (\<lambda>c. c \<noteq> CHR ''s'') Plus, GClose]"

definition buildVolume :: "item list" where
  "buildVolume =
     lit ''X:'' @ [Atom is_space Star, GOpen, Atom is_numch Plus, GClose, Atom is_space Plus] @
     lit ''Y:'' @ [Atom is_space Star, GOpen, Atom is_numch Plus, GClose, Atom is_space Plus] @
     lit ''Z:'' @ [Atom is_space Star, GOpen, Atom is_numch Plus, GClose]"

definition macAddress :: "item list" where
  "macAddress = lit ''Mac Address:'' @ [Atom is_space Star, GOpen, Atom is_macch Plus, GClose]"

definition temp_pair :: "string \<Rightarrow> item list" where
  "temp_pair name = lit name @
     [GOpen, Atom is_numch Plus, GClose, ch CHR ''/'' One, GOpen, Atom is_numch Plus, GClose]"

definition t0 :: "item list" where "t0 = temp_pair ''T0:''"
definition t1 :: "item list" where "t1 = temp_pair ''T1:''"
definition bed :: "item list" where "bed = temp_pair ''B:''"

definition progressBytes :: "item list" where
  "progressBytes = lit ''SD printing byte'' @
     [Atom is_space Plus, GOpen, Atom is_digit Plus, GClose, ch CHR ''/'' One,
      GOpen, Atom is_digit Plus, GClose]"

definition progressLayers :: "item list" where
  "progressLayers = lit ''Layer:'' @
     [Atom is_space Plus, GOpen, Atom is_digit Plus, GClose, ch CHR ''/'' One,
      GOpen, Atom is_digit Plus, GClose]"

definition led :: "item list" where
  "led = lit ''LED:'' @ [Atom is_space Star, GOpen, Atom is_digit Plus, GClose]"

definition currentFile :: "item list" where
  "currentFile = lit ''CurrentFile:'' @
     [Atom is_space Star, GOpen, Atom is_dot Plus, GClose, ch CR Opt]"

definition statusFlags :: "item list" where
  "statusFlags = lit ''Status:'' @ [Atom is_space Star, GOpen, Atom is_dot Plus, GClose]"

section \<open>Numbers computed from a reply\<close>

text \<open>
  JavaScript numbers are IEEE doubles. \<open>fl\<close> rounds a rational to the nearest double
  (53 significant bits, ties to even); it is the double on the normal range (no
  overflow to infinity, no subnormal result), which covers every decimal string of fewer
  than 300 digits and the quotients and products below. \<^verbatim>\<open>parseInt\<close> is applied only to matches of \<^verbatim>\<open>\d+\<close>, where it is the decimal
  value, rounded. \<^verbatim>\<open>a / b\<close> and \<^verbatim>\<open>a * b\<close> are the exact result, rounded.
\<close>

definition pow2 :: "int \<Rightarrow> rat" where
  "pow2 e = (if 0 \<le> e then 2 ^ nat e else 1 / 2 ^ nat (- e))"

definition ilog2 :: "rat \<Rightarrow> int" where
  "ilog2 x = (case quotient_of x of (a, d) \<Rightarrow>
     let e = bitlen a - bitlen d in if pow2 e \<le> x then e else e - 1)"

definition round_even :: "rat \<Rightarrow> int" where
  "round_even x =
     (let f = \<lfloor>x\<rfloor>; d = x - of_int f
      in if d < 1 / 2 then f else if 1 / 2 < d then f + 1 else if even f then f else f + 1)"

definition fl :: "rat \<Rightarrow> rat" where
  "fl x = (if x = 0 then 0
           else let u = pow2 (ilog2 \<bar>x\<bar> - 52) in of_int (round_even (x / u)) * u)"

definition js_div :: "rat \<Rightarrow> rat \<Rightarrow> rat" where
  "js_div x y = fl (x / y)"

definition js_mul :: "rat \<Rightarrow> rat \<Rightarrow> rat" where
  "js_mul x y = fl (x * y)"

definition Math_floor :: "rat \<Rightarrow> rat" where
  "Math_floor x = of_int \<lfloor>x\<rfloor>"

definition parseInt :: "string \<Rightarrow> rat" where
  "parseInt s = fl (of_int (foldl (\<lambda>a c. 10 * a + (of_char c - 48)) 0 s))"

section \<open>Assembling a snapshot\<close>

text \<open>
  A JavaScript object with string keys is the list of its properties in insertion order;
  \<open>set_prop\<close> is the assignment \<^verbatim>\<open>obj[key] = v\<close>. A value that may be \<^verbatim>\<open>null\<close> is
  an option, so a property holding \<^verbatim>\<open>null\<close> is \<open>(key, None)\<close> and differs from a
  property that is absent.
\<close>

fun set_prop :: "(string \<times> 'v) list \<Rightarrow> string \<Rightarrow> 'v \<Rightarrow> (string \<times> 'v) list" where
  "set_prop [] k v = [(k, v)]"
| "set_prop (p # ps) k v = (if fst p = k then (k, v) # ps else p # set_prop ps k v)"

text \<open>\<^verbatim>\<open>const m = text.match(pattern); if (m) obj[key] = m[1]\<close>\<close>

definition put_match :: "string \<Rightarrow> item list \<Rightarrow> (string \<times> string) list \<Rightarrow> string \<Rightarrow> (string \<times> string) list" where
  "put_match text pattern obj key =
     (case rsearch pattern text of Some (v # _) \<Rightarrow> set_prop obj key v | _ \<Rightarrow> obj)"

definition mappings :: "(string \<times> string) list" where
  "mappings = [(''Type'', ''Machine Type''), (''Name'', ''Machine Name''),
               (''Firmware'', ''Firmware''), (''SN'', ''SN''), (''Tool Count'', ''Tool Count'')]"

definition info_section :: "string \<Rightarrow> (string \<times> string) list" where
  "info_section infoResult =
     (let info1 = foldl (\<lambda>info (key, src). put_match infoResult (field src) info key) [] mappings;
          info2 = put_match infoResult macAddress info1 ''Mac Address''
      in case rsearch buildVolume infoResult of
           Some (x # y # z # _) \<Rightarrow>
             set_prop (set_prop (set_prop info2 ''BuildVolumeX'' x) ''BuildVolumeY'' y) ''BuildVolumeZ'' z
         | _ \<Rightarrow> info2)"

definition head_section :: "string \<Rightarrow> (string \<times> string) list" where
  "head_section headRes =
     foldl (\<lambda>headLocation fld. put_match headRes (coordinates fld) headLocation fld) [] [''X'', ''Y'', ''Z'']"

text \<open>\<^verbatim>\<open>m ? m[1] : null\<close> and \<^verbatim>\<open>m ? m[2] : null\<close>\<close>

definition group1 :: "string list option \<Rightarrow> string option" where
  "group1 m = (case m of Some (x # _) \<Rightarrow> Some x | _ \<Rightarrow> None)"

definition group2 :: "string list option \<Rightarrow> string option" where
  "group2 m = (case m of Some (_ # y # _) \<Rightarrow> Some y | _ \<Rightarrow> None)"

definition temperatures_default :: "(string \<times> string option) list" where
  "temperatures_default = [(''Temperature'', None), (''TargetTemperature'', None)]"

definition temp_section :: "string \<Rightarrow> (string \<times> string option) list" where
  "temp_section tempRes =
     (let m0 = rsearch t0 tempRes; m1 = rsearch t1 tempRes; mb = rsearch bed tempRes
      in [(''Temperature'', group1 m0), (''TargetTemperature'', group2 m0),
          (''T1Temperature'', group1 m1), (''T1TargetTemperature'', group2 m1),
          (''BedTemperature'', group1 mb), (''BedTargetTemperature'', group2 mb)])"

text \<open>
  The progress object. \<open>LayerCurrent\<close> and \<open>LayerTotal\<close> are \<open>None\<close> when the snapshot's
  object has no such property (and when the route's reply holds \<^verbatim>\<open>null\<close> there).
\<close>

record progress =
  BytesPrinted :: rat
  BytesTotal :: rat
  PercentageCompleted :: rat
  LayerCurrent :: "rat option"
  LayerTotal :: "rat option"

definition progress_default :: progress where
  "progress_default = \<lparr>BytesPrinted = 0, BytesTotal = 0, PercentageCompleted = 0,
                        LayerCurrent = None, LayerTotal = None\<rparr>"

definition progress_of :: "string list option \<Rightarrow> string list option \<Rightarrow> progress" where
  "progress_of bytes layers =
     (let progress1 =
            (case bytes of
               Some (b1 # b2 # _) \<Rightarrow>
                 let printed = parseInt b1; total = parseInt b2;
                     percentage = (if total = 0 then 0 else Math_floor (js_mul (js_div printed total) 100))
                 in \<lparr>BytesPrinted = printed, BytesTotal = total, PercentageCompleted = percentage,
                      LayerCurrent = None, LayerTotal = None\<rparr>
             | _ \<Rightarrow> progress_default)
      in case layers of
           Some (l1 # l2 # _) \<Rightarrow>
             let progress2 = progress1\<lparr>LayerCurrent := Some (parseInt l1), LayerTotal := Some (parseInt l2)\<rparr>
             in if PercentageCompleted progress2 = 0 \<and> parseInt l2 \<noteq> 0
                then progress2\<lparr>PercentageCompleted := Math_floor (js_mul (js_div (parseInt l1) (parseInt l2)) 100)\<rparr>
                else progress2
         | _ \<Rightarrow> progress1)"

definition progress_section :: "string \<Rightarrow> progress" where
  "progress_section progRes =
     progress_of (rsearch progressBytes progRes) (rsearch progressLayers progRes)"

definition status_section :: "string \<Rightarrow> (string \<times> string) list" where
  "status_section statusRes =
     (let status1 = foldl (\<lambda>status fld. put_match statusRes (field fld) status fld) []
                      [''Status'', ''MachineStatus'', ''MoveMode'', ''Endstop''];
          status2 = put_match statusRes led status1 ''LED'';
          status3 = put_match statusRes currentFile status2 ''CurrentFile''
      in put_match statusRes statusFlags status3 ''StatusFlags'')"

record snapshot =
  info :: "(string \<times> string) list"
  headLocation :: "(string \<times> string) list"
  temperatures :: "(string \<times> string option) list"
  progress :: progress
  status :: "(string \<times> string) list"
  errors :: "(string \<times> string) list"
  timestamp :: string

text \<open>
  \<^verbatim>\<open>fetchSnapshot(ip)\<close>: six transactions, each inside its own \<^verbatim>\<open>try\<close>; a rejection
  appends \<open>(step, message)\<close> to \<open>errors\<close> and leaves the section at the value it was
  initialised with. Matching and \<^verbatim>\<open>parseInt\<close> never throw, so a rejected transaction
  is the only way into a \<^verbatim>\<open>catch\<close>. \<open>now\<close> is \<^verbatim>\<open>new Date().toISOString()\<close>.
\<close>

definition fetchSnapshot :: "net \<Rightarrow> string \<Rightarrow> string \<Rightarrow> snapshot \<times> net" where
  "fetchSnapshot n0 ip now =
     (let (r1, n1) = sendAndReceive n0 ip CONTROL;
          errors1 = (case r1 of Inr _ \<Rightarrow> [] | Inl e \<Rightarrow> [(''CONTROL'', e)]);
          (r2, n2) = sendAndReceive n1 ip INFO;
          (info', errors2) =
            (case r2 of Inr infoResult \<Rightarrow> (info_section infoResult, errors1)
                      | Inl e \<Rightarrow> ([], errors1 @ [(''INFO'', e)]));
          (r3, n3) = sendAndReceive n2 ip HEAD_POSITION;
          (headLocation', errors3) =
            (case r3 of Inr headRes \<Rightarrow> (head_section headRes, errors2)
                      | Inl e \<Rightarrow> ([], errors2 @ [(''HEAD_POSITION'', e)]));
          (r4, n4) = sendAndReceive n3 ip TEMP;
          (temperatures', errors4) =
            (case r4 of Inr tempRes \<Rightarrow> (temp_section tempRes, errors3)
                      | Inl e \<Rightarrow> (temperatures_default, errors3 @ [(''TEMP'', e)]));
          (r5, n5) = sendAndReceive n4 ip PROGRESS;
          (progress', errors5) =
            (case r5 of Inr progRes \<Rightarrow> (progress_section progRes, errors4)
                      | Inl e \<Rightarrow> (progress_default, errors4 @ [(''PROGRESS'', e)]));
          (r6, n6) = sendAndReceive n5 ip STATUS;
          (status', errors6) =
            (case r6 of Inr statusRes \<Rightarrow> (status_section statusRes, errors5)
                      | Inl e \<Rightarrow> ([], errors5 @ [(''STATUS'', e)]))
      in (\<lparr>info = info', headLocation = headLocation', temperatures = temperatures',
           progress = progress', status = status', errors = errors6, timestamp = now\<rparr>, n6))"

text \<open>
  \<^verbatim>\<open>app.get('/:ip/progress')\<close>: the unlock transaction and the progress query, both
  inside one \<^verbatim>\<open>try\<close>; the reply's fields computed as the route writes them.
\<close>

definition route_progress_of :: "string list option \<Rightarrow> string list option \<Rightarrow> progress" where
  "route_progress_of bytes layers =
     (let (printed, total, percentage) =
            (case bytes of
               Some (b1 # b2 # _) \<Rightarrow>
                 (parseInt b1, parseInt b2,
                  if parseInt b2 = 0 then 0 else Math_floor (js_mul (js_div (parseInt b1) (parseInt b2)) 100))
             | _ \<Rightarrow> (0, 0, 0));
          (layerCurrent, layerTotal, percentage') =
            (case layers of
               Some (l1 # l2 # _) \<Rightarrow>
                 (Some (parseInt l1), Some (parseInt l2),
                  if percentage = 0 \<and> parseInt l2 \<noteq> 0
                  then Math_floor (js_mul (js_div (parseInt l1) (parseInt l2)) 100) else percentage)
             | _ \<Rightarrow> (None, None, percentage))
      in \<lparr>BytesPrinted = printed, BytesTotal = total, PercentageCompleted = percentage',
           LayerCurrent = layerCurrent, LayerTotal = layerTotal\<rparr>)"

definition progress_route :: "net \<Rightarrow> string \<Rightarrow> (string + progress) \<times> net" where
  "progress_route n ip =
     (case sendAndReceive n ip CONTROL of
        (Inl e, n1) \<Rightarrow> (Inl e, n1)
      | (Inr _, n1) \<Rightarrow>
          (case sendAndReceive n1 ip PROGRESS of
             (Inl e, n2) \<Rightarrow> (Inl e, n2)
           | (Inr infoResult, n2) \<Rightarrow>
               (Inr (route_progress_of (rsearch progressBytes infoResult)
                                       (rsearch progressLayers infoResult)), n2)))"

text \<open>
  What the six steps are, for stating properties: the position of each transaction in
  the call, the name recorded on failure, and the command sent.
\<close>

definition steps :: "(nat \<times> string \<times> string) list" where
  "steps = [(0, ''CONTROL'', CONTROL), (1, ''INFO'', INFO), (2, ''HEAD_POSITION'', HEAD_POSITION),
            (3, ''TEMP'', TEMP), (4, ''PROGRESS'', PROGRESS), (5, ''STATUS'', STATUS)]"

text \<open>The outcome of the \<open>k\<close>-th transaction of a call that starts on network \<open>n\<close>.\<close>

definition outcome_at :: "net \<Rightarrow> string \<Rightarrow> nat \<Rightarrow> string \<Rightarrow> outcome" where
  "outcome_at n ip k command = respond n (length (sent n) + k) ip command"

definition step_failures :: "net \<Rightarrow> string \<Rightarrow> (string \<times> string) list" where
  "step_failures n ip =
     concat (map (\<lambda>(k, name, command).
                    case outcome_at n ip k command of Inl e \<Rightarrow> [(name, e)] | Inr _ \<Rightarrow> [])
                 steps)"

definition section_of :: "outcome \<Rightarrow> (string \<Rightarrow> 'a) \<Rightarrow> 'a \<Rightarrow> 'a" where
  "section_of res parse dflt = (case res of Inr text \<Rightarrow> parse text | Inl _ \<Rightarrow> dflt)"

text \<open>\<^verbatim>\<open>Math.floor((a / b) * 100)\<close>, in doubles.\<close>

definition percent :: "rat \<Rightarrow> rat \<Rightarrow> rat" where
  "percent x y = Math_floor (js_mul (js_div x y) 100)"

text \<open>The percentage computed from the byte counter alone: 0 without a match or with total 0.\<close>

definition byte_percentage :: "string list option \<Rightarrow> rat" where
  "byte_percentage bytes =
     (case bytes of
        Some (b1 # b2 # _) \<Rightarrow> if parseInt b2 = 0 then 0 else percent (parseInt b1) (parseInt b2)
      | _ \<Rightarrow> 0)"

section \<open>The subscription hub\<close>

text \<open>
  \<^verbatim>\<open>subscriptions\<close> is a \<^verbatim>\<open>Map\<close> from address to an entry object
  \<^verbatim>\<open>{ clients, timer, intervalMs }\<close>. Entries are objects with identity: timer callbacks
  and running assemblies keep a reference to the entry they were created for, also after
  the entry has left the map. So the entries live in a store \<open>heap\<close> (an entry's
  reference is its index, allocation appends, nothing is freed) and the map holds
  references, in insertion order. A socket and a timer are identities too, modelled as
  numbers. A \<^verbatim>\<open>Set\<close> of sockets is a list without repetition, in insertion order.
  Addresses are strings.
\<close>

record entry =
  clients :: "nat list"
  intervalMs :: jsnum
  timer :: nat

text \<open>Messages the server writes to a socket.\<close>

datatype message =
    SnapshotMsg string snapshot
  | ErrorMsg string string
  | SubscribedMsg string jsnum
  | UnsubscribedMsg string
  | InvalidFormatMsg

text \<open>
  A snapshot assembly that has been started and has not settled yet: started by the timer
  of an entry (address and entry reference, as captured by the callback), or by a
  one-off request of a socket (address and socket).
\<close>

datatype assembly = Poll string nat | Once string nat

text \<open>
  \<open>timers\<close> are the intervals that are set and not cleared, each with what its callback
  captured (address, entry reference) and its delay. \<open>outbox\<close> logs what was written to
  sockets.
\<close>

record hub =
  heap :: "entry list"
  subscriptions :: "(string \<times> nat) list"
  timers :: "(nat \<times> string \<times> nat \<times> jsnum) list"
  next_timer :: nat
  inflight :: "assembly list"
  outbox :: "(nat \<times> message) list"

definition hub0 :: hub where
  "hub0 = \<lparr>heap = [], subscriptions = [], timers = [], next_timer = 0, inflight = [], outbox = []\<rparr>"

definition setInterval :: "hub \<Rightarrow> string \<Rightarrow> nat \<Rightarrow> jsnum \<Rightarrow> nat \<times> hub" where
  "setInterval h ip ad delay =
     (next_timer h,
      h\<lparr>timers := timers h @ [(next_timer h, ip, ad, delay)], next_timer := Suc (next_timer h)\<rparr>)"

definition clearInterval :: "hub \<Rightarrow> nat \<Rightarrow> hub" where
  "clearInterval h tid = h\<lparr>timers := filter (\<lambda>t. fst t \<noteq> tid) (timers h)\<rparr>"

definition ensurePolling :: "hub \<Rightarrow> string \<Rightarrow> jsnum \<Rightarrow> nat \<times> hub" where
  "ensurePolling h ip interval =
     (case map_of (subscriptions h) ip of
        Some ad \<Rightarrow>
          let existing = heap h ! ad in
          if interval < intervalMs existing then
            let h1 = clearInterval h (timer existing);
                (tid, h2) = setInterval h1 ip ad interval
            in (ad, h2\<lparr>heap := (heap h2)[ad := existing\<lparr>intervalMs := interval, timer := tid\<rparr>]\<rparr>)
          else (ad, h)
      | None \<Rightarrow>
          let ad = length (heap h);
              (tid, h1) = setInterval h ip ad interval
          in (ad, h1\<lparr>heap := heap h1 @ [\<lparr>clients = [], intervalMs = interval, timer = tid\<rparr>],
                     subscriptions := subscriptions h1 @ [(ip, ad)]\<rparr>))"

definition set_add :: "nat list \<Rightarrow> nat \<Rightarrow> nat list" where
  "set_add xs x = (if x \<in> set xs then xs else xs @ [x])"

definition set_delete :: "nat list \<Rightarrow> nat \<Rightarrow> nat list" where
  "set_delete xs x = filter (\<lambda>y. y \<noteq> x) xs"

text \<open>\<^verbatim>\<open>entry.clients.add(ws)\<close> and \<^verbatim>\<open>entry.clients.delete(ws)\<close> on the entry at \<open>ad\<close>.\<close>

definition clients_add :: "hub \<Rightarrow> nat \<Rightarrow> nat \<Rightarrow> hub" where
  "clients_add h ad ws =
     h\<lparr>heap := (heap h)[ad := (heap h ! ad)\<lparr>clients := set_add (clients (heap h ! ad)) ws\<rparr>]\<rparr>"

definition clients_delete :: "hub \<Rightarrow> nat \<Rightarrow> nat \<Rightarrow> hub" where
  "clients_delete h ad ws =
     h\<lparr>heap := (heap h)[ad := (heap h ! ad)\<lparr>clients := set_delete (clients (heap h ! ad)) ws\<rparr>]\<rparr>"

definition cleanupSubscription :: "hub \<Rightarrow> string \<Rightarrow> hub" where
  "cleanupSubscription h ip =
     (case map_of (subscriptions h) ip of
        None \<Rightarrow> h
      | Some ad \<Rightarrow>
          if length (clients (heap h ! ad)) = 0
          then (clearInterval h (timer (heap h ! ad)))
                 \<lparr>subscriptions := filter (\<lambda>p. fst p \<noteq> ip) (subscriptions h)\<rparr>
          else h)"

definition send :: "hub \<Rightarrow> nat \<Rightarrow> message \<Rightarrow> hub" where
  "send h ws m = h\<lparr>outbox := outbox h @ [(ws, m)]\<rparr>"

text \<open>
  A parsed client message. \<open>Unparsable\<close> is a text on which \<^verbatim>\<open>JSON.parse\<close> or the
  access to \<^verbatim>\<open>msg.type\<close> throws; \<open>Ignored\<close> is any other message. The requested
  interval is the value of \<^verbatim>\<open>msg.intervalMs\<close>. A handler's own reply is taken to be
  written without an exception: one would change the reply only, the registry has been
  updated before.
\<close>

datatype client_msg =
    Subscribe string jsval
  | Unsubscribe string
  | SnapshotReq string
  | Unparsable
  | Ignored

definition on_message :: "hub \<Rightarrow> nat \<Rightarrow> client_msg \<Rightarrow> hub" where
  "on_message h ws msg =
     (case msg of
        Subscribe ip iv \<Rightarrow>
          if ip \<noteq> [] then
            let interval = (case iv of JNum x \<Rightarrow> Math_max (Fin 500) x | _ \<Rightarrow> Fin 2000);
                (ad, h1) = ensurePolling h ip interval;
                h2 = clients_add h1 ad ws
            in send h2 ws (SubscribedMsg ip (intervalMs (heap h2 ! ad)))
          else h
      | Unsubscribe ip \<Rightarrow>
          if ip \<noteq> [] then
            let h1 = (case map_of (subscriptions h) ip of
                        Some ad \<Rightarrow> cleanupSubscription (clients_delete h ad ws) ip
                      | None \<Rightarrow> h)
            in send h1 ws (UnsubscribedMsg ip)
          else h
      | SnapshotReq ip \<Rightarrow>
          if ip \<noteq> [] then h\<lparr>inflight := inflight h @ [Once ip ws]\<rparr> else h
      | Unparsable \<Rightarrow> send h ws InvalidFormatMsg
      | Ignored \<Rightarrow> h)"

text \<open>
  The \<^verbatim>\<open>close\<close> handler walks the map; deleting the entry being visited does not disturb
  the walk, so it visits the pairs the map held when it started.
\<close>

definition on_close :: "hub \<Rightarrow> nat \<Rightarrow> hub" where
  "on_close h ws =
     foldl (\<lambda>h' (ip, ad). cleanupSubscription (clients_delete h' ad ws) ip) h (subscriptions h)"

text \<open>
  A new connection: \<open>ip\<close> is the \<open>ip\<close> query parameter (\<open>None\<close> when missing or when the
  URL does not parse), \<open>interval\<close> the result of \<^verbatim>\<open>parseInt\<close> on the \<open>interval\<close>
  parameter or on \<open>2000\<close> (\<open>None\<close> for NaN).
\<close>

definition on_connection :: "hub \<Rightarrow> nat \<Rightarrow> string option \<Rightarrow> jsnum option \<Rightarrow> hub" where
  "on_connection h ws ip interval =
     (case ip of
        None \<Rightarrow> h
      | Some ip' \<Rightarrow>
          if ip' \<noteq> [] then
            let (ad, h1) = ensurePolling h ip'
                             (case interval of None \<Rightarrow> Fin 2000 | Some x \<Rightarrow> Math_max (Fin 500) x);
                h2 = clients_add h1 ad ws
            in h2\<lparr>inflight := inflight h2 @ [Once ip' ws]\<rparr>
          else h)"

text \<open>
  The interval callback: \<^verbatim>\<open>async () => { try { const data = await fetchSnapshot(ip); ...\<close>.
  When the timer fires, the callback runs up to its \<^verbatim>\<open>await\<close>: it calls
  \<^verbatim>\<open>fetchSnapshot\<close>, which starts its first transaction. Nothing is tested before.
  A timer that has been cleared does not fire.
\<close>

definition fire :: "hub \<Rightarrow> nat \<Rightarrow> hub" where
  "fire h tid =
     (case find (\<lambda>t. fst t = tid) (timers h) of
        Some (_, ip, ad, _) \<Rightarrow> h\<lparr>inflight := inflight h @ [Poll ip ad]\<rparr>
      | None \<Rightarrow> h)"

text \<open>
  The loop \<^verbatim>\<open>for (const ws of clients) if (ws.readyState === ws.OPEN) ws.send(m)\<close>:
  \<open>ready\<close> tells which sockets are open, \<open>throws\<close> for which sockets \<^verbatim>\<open>send\<close> throws
  (and the error's message). The result is what was written and the exception that
  ended the loop, if any.
\<close>

fun send_each :: "(nat \<Rightarrow> bool) \<Rightarrow> (nat \<Rightarrow> string option) \<Rightarrow> message \<Rightarrow> nat list
                  \<Rightarrow> (nat \<times> message) list \<times> string option" where
  "send_each ready throws m [] = ([], None)"
| "send_each ready throws m (w # ws) =
     (if ready w then
        (case throws w of
           Some e \<Rightarrow> ([], Some e)
         | None \<Rightarrow> (case send_each ready throws m ws of (out, t) \<Rightarrow> ((w, m) # out, t)))
      else send_each ready throws m ws)"

text \<open>
  The rest of the callback, after the assembly has settled with \<open>data\<close>: the snapshot to
  every open socket of \<open>cl\<close>; an exception there enters the \<^verbatim>\<open>catch\<close>, which writes
  the error to every open socket (an exception there is not caught).
\<close>

definition deliver :: "hub \<Rightarrow> (nat \<Rightarrow> bool) \<Rightarrow> (nat \<Rightarrow> string option) \<Rightarrow> string \<Rightarrow> nat list \<Rightarrow> snapshot \<Rightarrow> hub" where
  "deliver h ready throws ip cl data =
     (case send_each ready throws (SnapshotMsg ip data) cl of
        (out1, None) \<Rightarrow> h\<lparr>outbox := outbox h @ out1\<rparr>
      | (out1, Some e) \<Rightarrow>
          h\<lparr>outbox := outbox h @ out1 @ fst (send_each ready throws (ErrorMsg ip e) cl)\<rparr>)"

text \<open>
  The \<open>k\<close>-th running assembly settles: it ran against network \<open>n\<close> and finished at time
  \<open>now\<close>. A poll assembly reads the clients of the entry its callback captured, at this
  moment; a one-off assembly answers its socket.
\<close>

definition complete :: "hub \<Rightarrow> nat \<Rightarrow> net \<Rightarrow> string \<Rightarrow> (nat \<Rightarrow> bool) \<Rightarrow> (nat \<Rightarrow> string option) \<Rightarrow> hub" where
  "complete h k n now ready throws =
     (if k < length (inflight h) then
        let h1 = h\<lparr>inflight := take k (inflight h) @ drop (Suc k) (inflight h)\<rparr>
        in case inflight h ! k of
             Poll ip ad \<Rightarrow>
               deliver h1 ready throws ip (clients (heap h ! ad)) (fst (fetchSnapshot n ip now))
           | Once ip ws \<Rightarrow>
               deliver h1 ready throws ip [ws] (fst (fetchSnapshot n ip now))
      else h)"

text \<open>The events of the server, and the hub after a sequence of them.\<close>

datatype event =
    Connection nat "string option" "jsnum option"
  | Message nat client_msg
  | Close nat
  | Fire nat
  | Complete nat net string "nat \<Rightarrow> bool" "nat \<Rightarrow> string option"

fun step :: "hub \<Rightarrow> event \<Rightarrow> hub" where
  "step h (Connection ws ip interval) = on_connection h ws ip interval"
| "step h (Message ws msg) = on_message h ws msg"
| "step h (Close ws) = on_close h ws"
| "step h (Fire tid) = fire h tid"
| "step h (Complete k n now ready throws) = complete h k n now ready throws"

definition run :: "event list \<Rightarrow> hub" where
  "run evs = foldl step hub0 evs"

text \<open>Readings of the state used in the properties.\<close>

definition registered :: "hub \<Rightarrow> nat \<Rightarrow> bool" where
  "registered h ad = (ad \<in> snd ` set (subscriptions h))"

definition polls_in_flight :: "hub \<Rightarrow> string \<Rightarrow> nat" where
  "polls_in_flight h ip =
     length (filter (\<lambda>a. case a of Poll ip' _ \<Rightarrow> ip' = ip | Once _ _ \<Rightarrow> False) (inflight h))"

definition timer_ids :: "hub \<Rightarrow> nat set" where
  "timer_ids h = fst ` set (timers h)"

text \<open>
  What holds of the registry between events. The map's keys are distinct and so are the
  entries it refers to, which all exist; an entry object has subscribers exactly when the
  map refers to it.
\<close>

definition reg_inv :: "hub \<Rightarrow> bool" where
  "reg_inv h \<longleftrightarrow>
     distinct (map fst (subscriptions h)) \<and> distinct (map snd (subscriptions h))
     \<and> (\<forall>(ip, ad) \<in> set (subscriptions h). ad < length (heap h))
     \<and> (\<forall>ad < length (heap h). (clients (heap h ! ad) \<noteq> []) = registered h ad)"

text \<open>
  The timers that are set are the current timers of the registered entries, one each:
  every timer that is set belongs to a registered entry, captured that entry and its
  address, and is the one the entry records; every registered entry's timer is set.
\<close>

definition timer_inv :: "hub \<Rightarrow> bool" where
  "timer_inv h \<longleftrightarrow>
     distinct (map fst (timers h)) \<and> (\<forall>t \<in> set (timers h). fst t < next_timer h)
     \<and> (\<forall>(tid, ip, ad, d) \<in> set (timers h).
           (ip, ad) \<in> set (subscriptions h) \<and> timer (heap h ! ad) = tid)
     \<and> (\<forall>(ip, ad) \<in> set (subscriptions h).
           \<exists>d. (timer (heap h ! ad), ip, ad, d) \<in> set (timers h))"

definition hub_inv :: "hub \<Rightarrow> bool" where
  "hub_inv h \<longleftrightarrow> reg_inv h \<and> timer_inv h"

text \<open>
  The two steps the handlers are made of: subscribing a socket to an address, and
  removing a socket from the entry \<open>ad\<close> registered for an address.
\<close>

definition subscribe_at :: "hub \<Rightarrow> string \<Rightarrow> jsnum \<Rightarrow> nat \<Rightarrow> hub" where
  "subscribe_at h ip interval ws =
     (case ensurePolling h ip interval of (ad, h1) \<Rightarrow> clients_add h1 ad ws)"

definition remove_at :: "hub \<Rightarrow> nat \<Rightarrow> string \<times> nat \<Rightarrow> hub" where
  "remove_at h ws p = cleanupSubscription (clients_delete h (snd p) ws) (fst p)"

section \<open>Example inputs\<close>

text \<open>
  Networks for the examples: one where every transaction is answered with \<open>ok\<close>, one
  where every transaction times out, one where only the temperature query times out.
\<close>

definition net_ok :: net where
  "net_ok = \<lparr>respond = (\<lambda>k ip message. Inr ''ok''), sent = []\<rparr>"


definition net_temp_fail :: net where
  "net_temp_fail =
     \<lparr>respond = (\<lambda>k ip message. if message = TEMP then Inl ''Connection timeout'' else Inr ''ok''),
      sent = []\<rparr>"


text \<open>
  A progress reply in which the byte counter has a non-zero total and is below one per
  cent, while the layer counter stands at 3 of 12.
\<close>

definition reply_m27 :: string where
  "reply_m27 = ''SD printing byte 1/200'' @ CRLF @ ''Layer: 3/12'' @ CRLF @ ''ok'' @ CRLF"

text \<open>
  Hub events for the examples: socket 1 subscribes to a device at 5000 ms, socket 2 at
  2000 ms; socket 1 subscribes to a second device.
\<close>

definition sub_A :: event where
  "sub_A = Message 1 (Subscribe ''10.0.0.5'' (JNum (Fin 5000)))"

definition sub_B :: event where
  "sub_B = Message 2 (Subscribe ''10.0.0.5'' (JNum (Fin 2000)))"

definition sub_C :: event where
  "sub_C = Message 1 (Subscribe ''10.0.0.9'' (JNum (Fin 1000)))"


text \<open>
  The hub after the first subscription; after both with a tick of the retuned timer; and
  when socket 2 subscribes while the assembly of a tick is running.
\<close>

definition hub_A :: hub where
  "hub_A = run [sub_A]"

definition hub_AB_tick :: hub where
  "hub_AB_tick = run [sub_A, sub_B, Fire 1]"

definition hub_A_tick_B :: hub where
  "hub_A_tick_B = run [sub_A, Fire 0, sub_B]"

text \<open>
  The hub after both subscriptions; after socket 2 has unsubscribed again; and with
  socket 1 subscribed to two devices and socket 2 to one of them.
\<close>

definition unsub_A :: event where
  "unsub_A = Message 1 (Unsubscribe ''10.0.0.5'')"

definition hub_A_gone :: hub where
  "hub_A_gone = run [sub_A, unsub_A]"



definition hub_ABC :: hub where
  "hub_ABC = run [sub_A, sub_B, sub_C]"

section \<open>Order on JavaScript numbers\<close>

lemma Fin_le_iff [simp]: "Fin a \<le> Fin b \<longleftrightarrow> a \<le> b"
  by (simp add: less_eq_jsnum_def)

lemma Fin_less_iff [simp]: "Fin a < Fin b \<longleftrightarrow> a < b"
  by (auto simp: less_jsnum_def)

lemma jsnum_inf_simps [simp]:
  "NegInf \<le> x" "x \<le> PosInf" "\<not> Fin a \<le> NegInf" "\<not> PosInf \<le> Fin a"
  "\<not> PosInf \<le> NegInf" "NegInf < Fin a" "Fin a < PosInf" "NegInf < PosInf"
  "\<not> x < NegInf" "\<not> PosInf < x"
  by (cases x; simp add: less_eq_jsnum_def less_jsnum_def)+

section \<open>Properties of the LED route\<close>





lemma led_route_unlock_fails:
  "respond n (length (sent n)) ip CONTROL = Inl e \<Longrightarrow>
   led_route numstr n ip body = (LedError e, n\<lparr>sent := sent n @ [(ip, CONTROL)]\<rparr>)"
  by (simp add: led_route_def sendAndReceive_def)





section \<open>Properties of the snapshot assembly\<close>


text \<open>
  The snapshot in closed form: each section is computed from the outcome of its own
  transaction alone, and the error list is the failures in step order.
\<close>

lemma fetchSnapshot_eq:
  "fst (fetchSnapshot n ip now) =
     \<lparr>info = section_of (outcome_at n ip 1 INFO) info_section [],
      headLocation = section_of (outcome_at n ip 2 HEAD_POSITION) head_section [],
      temperatures = section_of (outcome_at n ip 3 TEMP) temp_section temperatures_default,
      progress = section_of (outcome_at n ip 4 PROGRESS) progress_section progress_default,
      status = section_of (outcome_at n ip 5 STATUS) status_section [],
      errors = step_failures n ip,
      timestamp = now\<rparr>"
  by (simp add: fetchSnapshot_def sendAndReceive_def Let_def section_of_def outcome_at_def
      step_failures_def steps_def eval_nat_numeral split: prod.splits sum.splits)







subsection \<open>A failing temperature step\<close>

lemma temp_outcome_fail: "outcome_at net_temp_fail ip 3 TEMP = Inl ''Connection timeout''"
  by (simp add: outcome_at_def net_temp_fail_def)

lemma temp_failure_general:
  "outcome_at n ip 3 TEMP = Inl e \<Longrightarrow>
   temperatures (fst (fetchSnapshot n ip now)) = [(''Temperature'', None), (''TargetTemperature'', None)]"
  by (simp add: fetchSnapshot_eq section_of_def temperatures_default_def)

lemma temp_success_keys:
  "outcome_at n ip 3 TEMP = Inr reply \<Longrightarrow>
   map fst (temperatures (fst (fetchSnapshot n ip now))) =
     [''Temperature'', ''TargetTemperature'', ''T1Temperature'', ''T1TargetTemperature'',
      ''BedTemperature'', ''BedTargetTemperature'']"
  by (simp add: fetchSnapshot_eq section_of_def temp_section_def Let_def)

text \<open>
  The other sections do not depend on the temperature step: two runs whose other five
  transactions have the same outcomes agree on them, and on the other steps' errors.
\<close>

lemma temp_step_isolated:
  assumes "\<forall>(k, name, command) \<in> set steps. name \<noteq> ''TEMP'' \<longrightarrow>
             outcome_at n ip k command = outcome_at n' ip k command"
  shows "info (fst (fetchSnapshot n ip now)) = info (fst (fetchSnapshot n' ip now))
       \<and> headLocation (fst (fetchSnapshot n ip now)) = headLocation (fst (fetchSnapshot n' ip now))
       \<and> progress (fst (fetchSnapshot n ip now)) = progress (fst (fetchSnapshot n' ip now))
       \<and> status (fst (fetchSnapshot n ip now)) = status (fst (fetchSnapshot n' ip now))
       \<and> filter (\<lambda>(name, e). name \<noteq> ''TEMP'') (errors (fst (fetchSnapshot n ip now))) =
          filter (\<lambda>(name, e). name \<noteq> ''TEMP'') (errors (fst (fetchSnapshot n' ip now)))"
proof -
  have o: "outcome_at n ip 0 CONTROL = outcome_at n' ip 0 CONTROL"
    "outcome_at n ip 1 INFO = outcome_at n' ip 1 INFO"
    "outcome_at n ip 2 HEAD_POSITION = outcome_at n' ip 2 HEAD_POSITION"
    "outcome_at n ip 4 PROGRESS = outcome_at n' ip 4 PROGRESS"
    "outcome_at n ip 5 STATUS = outcome_at n' ip 5 STATUS"
    using assms by (simp_all add: steps_def)
  show ?thesis
    using o by (simp add: fetchSnapshot_eq step_failures_def steps_def split: sum.splits)
qed

text \<open>
  C3. When the temperature transaction fails, the error list gets the one entry for
  step \<open>TEMP\<close> and the other sections are as they are without the failure, but the
  temperatures object keeps the value it was initialised with, which has two
  properties only (\<open>Temperature\<close> and \<open>TargetTemperature\<close>, both \<^verbatim>\<open>null\<close>): the four
  properties for the second tool and the bed are absent, whereas a successful step
  writes all six (as \<^verbatim>\<open>null\<close> where the reply has no match). Shown on a device where
  only the temperature query times out, next to one that answers \<open>ok\<close> to everything.
\<close>

theorem temp_failure_two_fields:
  "temperatures (fst (fetchSnapshot net_temp_fail ''10.0.0.5'' ''2025-01-01T00:00:00.000Z'')) =
     [(''Temperature'', None), (''TargetTemperature'', None)]
   \<and> map_of (temperatures (fst (fetchSnapshot net_temp_fail ''10.0.0.5'' ''2025-01-01T00:00:00.000Z'')))
        ''BedTemperature'' = None
   \<and> errors (fst (fetchSnapshot net_temp_fail ''10.0.0.5'' ''2025-01-01T00:00:00.000Z'')) =
       [(''TEMP'', ''Connection timeout'')]
   \<and> temperatures (fst (fetchSnapshot net_ok ''10.0.0.5'' ''2025-01-01T00:00:00.000Z'')) =
       [(''Temperature'', None), (''TargetTemperature'', None),
        (''T1Temperature'', None), (''T1TargetTemperature'', None),
        (''BedTemperature'', None), (''BedTargetTemperature'', None)]
   \<and> map_of (temperatures (fst (fetchSnapshot net_ok ''10.0.0.5'' ''2025-01-01T00:00:00.000Z'')))
        ''BedTemperature'' = Some None"
proof -
  have f: "step_failures net_temp_fail ''10.0.0.5'' = [(''TEMP'', ''Connection timeout'')]"
    by (simp add: step_failures_def steps_def outcome_at_def net_temp_fail_def
        CONTROL_def INFO_def HEAD_POSITION_def TEMP_def PROGRESS_def STATUS_def)
  have k: "outcome_at net_ok ''10.0.0.5'' 3 TEMP = Inr ''ok''"
    by (simp add: outcome_at_def net_ok_def)
  have p: "temp_section ''ok'' =
       [(''Temperature'', None), (''TargetTemperature'', None),
        (''T1Temperature'', None), (''T1TargetTemperature'', None),
        (''BedTemperature'', None), (''BedTargetTemperature'', None)]"
    by code_simp
  show ?thesis
    by (simp add: fetchSnapshot_eq section_of_def temp_outcome_fail temperatures_default_def f k p)
qed

subsection \<open>The percentage of a progress reply\<close>

text \<open>
  What the code computes: the byte percentage when it is not zero; otherwise the layer
  percentage when the layer counter matched with a non-zero total; otherwise 0. The
  layer counter is consulted whenever the byte percentage is 0, also when the byte
  counter matched with a non-zero total.
\<close>

lemma progress_policy:
  "PercentageCompleted (progress_of bytes layers) =
     (if byte_percentage bytes \<noteq> 0 then byte_percentage bytes
      else case layers of
             Some (l1 # l2 # _) \<Rightarrow> if parseInt l2 \<noteq> 0 then percent (parseInt l1) (parseInt l2) else 0
           | _ \<Rightarrow> 0)"
  by (auto simp: progress_of_def byte_percentage_def percent_def progress_default_def Let_def
      split: option.splits list.splits)

lemma route_progress_same: "route_progress_of bytes layers = progress_of bytes layers"
  by (auto simp: progress_of_def route_progress_of_def progress_default_def Let_def
      split: option.splits list.splits)

text \<open>The three cases the specification lists, on the matches of such replies.\<close>

lemma progress_examples:
  "PercentageCompleted (progress_of (Some [''50'', ''200'']) None) = 25"
  "PercentageCompleted (progress_of (Some [''0'', ''0'']) (Some [''3'', ''12''])) = 25"
  "PercentageCompleted (progress_of (Some [''0'', ''0'']) None) = 0"
  by code_simp+

text \<open>
  The quotient and the product are rounded to doubles before the floor is taken:
  for 29 of 100 bytes the percentage is 28.
\<close>

lemma percent_rounding: "percent 29 100 = 28"
  by code_simp

text \<open>
  C2. On a reply with byte counter 1/200 and layer counter 3/12 the byte counter matches
  with a non-zero total and gives \<open>floor(1 / 200 * 100) = 0\<close>, yet the percentage
  returned is the layer-based 25, from the snapshot assembly and from the progress route
  alike: the fallback tests whether the percentage is 0, not whether it was computed
  from bytes.
\<close>

theorem progress_zero_byte_percentage_overridden:
  "rsearch progressBytes reply_m27 = Some [''1'', ''200'']
   \<and> rsearch progressLayers reply_m27 = Some [''3'', ''12'']
   \<and> percent (parseInt ''1'') (parseInt ''200'') = 0
   \<and> progress_section reply_m27 =
       \<lparr>BytesPrinted = 1, BytesTotal = 200, PercentageCompleted = 25,
        LayerCurrent = Some 3, LayerTotal = Some 12\<rparr>
   \<and> route_progress_of (rsearch progressBytes reply_m27) (rsearch progressLayers reply_m27) =
       \<lparr>BytesPrinted = 1, BytesTotal = 200, PercentageCompleted = 25,
        LayerCurrent = Some 3, LayerTotal = Some 12\<rparr>"
proof -
  have b: "rsearch progressBytes reply_m27 = Some [''1'', ''200'']"
    by code_simp
  have l: "rsearch progressLayers reply_m27 = Some [''3'', ''12'']"
    by code_simp
  have z: "percent (parseInt ''1'') (parseInt ''200'') = 0"
    by code_simp
  have v: "progress_of (Some [''1'', ''200'']) (Some [''3'', ''12'']) =
       \<lparr>BytesPrinted = 1, BytesTotal = 200, PercentageCompleted = 25,
        LayerCurrent = Some 3, LayerTotal = Some 12\<rparr>"
    by code_simp
  show ?thesis
    by (simp add: b l z v progress_section_def route_progress_same)
qed

section \<open>The registry between events\<close>

lemma map_of_reg: "distinct (map fst ps) \<Longrightarrow> (ip, ad) \<in> set ps \<Longrightarrow> map_of ps ip = Some ad"
  by simp

lemma reg_unique_ip:
  "distinct (map snd ps) \<Longrightarrow> (ip, ad) \<in> set ps \<Longrightarrow> (ip', ad) \<in> set ps \<Longrightarrow> ip' = ip"
  by (metis distinct_map inj_on_def snd_conv prod.inject)

lemma reg_unique_ad:
  "distinct (map fst ps) \<Longrightarrow> (ip, ad) \<in> set ps \<Longrightarrow> (ip, ad') \<in> set ps \<Longrightarrow> ad' = ad"
  by (metis map_of_reg option.inject)

lemma set_add_nonempty [simp]: "set_add xs x \<noteq> []"
  by (auto simp: set_add_def)

text \<open>The three ways a subscription goes: a new entry, an entry kept as it is, an entry retuned.\<close>

lemma subscribe_new:
  assumes "map_of (subscriptions h) ip = None"
  shows "subscribe_at h ip i ws =
     h\<lparr>heap := heap h @ [\<lparr>clients = [ws], intervalMs = i, timer = next_timer h\<rparr>],
       subscriptions := subscriptions h @ [(ip, length (heap h))],
       timers := timers h @ [(next_timer h, ip, length (heap h), i)],
       next_timer := Suc (next_timer h)\<rparr>"
  using assms
  by (simp add: subscribe_at_def ensurePolling_def setInterval_def clients_add_def set_add_def Let_def)

lemma subscribe_keep:
  assumes "map_of (subscriptions h) ip = Some ad" "\<not> i < intervalMs (heap h ! ad)"
  shows "subscribe_at h ip i ws =
     h\<lparr>heap := (heap h)[ad := (heap h ! ad)\<lparr>clients := set_add (clients (heap h ! ad)) ws\<rparr>]\<rparr>"
  using assms
  by (simp add: subscribe_at_def ensurePolling_def clients_add_def Let_def)

lemma subscribe_retune:
  assumes "map_of (subscriptions h) ip = Some ad" "i < intervalMs (heap h ! ad)"
  shows "subscribe_at h ip i ws =
     h\<lparr>heap := (heap h)[ad := (heap h ! ad)\<lparr>intervalMs := i, timer := next_timer h,
                                              clients := set_add (clients (heap h ! ad)) ws\<rparr>],
       timers := filter (\<lambda>t. fst t \<noteq> timer (heap h ! ad)) (timers h) @ [(next_timer h, ip, ad, i)],
       next_timer := Suc (next_timer h)\<rparr>"
  using assms
  by (cases "ad < length (heap h)")
     (simp_all add: subscribe_at_def ensurePolling_def setInterval_def clearInterval_def clients_add_def Let_def
        list_update_beyond)

lemma reg_inv_subscribe_new:
  assumes "reg_inv h" "map_of (subscriptions h) ip = None"
  shows "reg_inv (subscribe_at h ip i ws)"
proof -
  have k: "ip \<notin> fst ` set (subscriptions h)"
    using assms(2) by (simp add: map_of_eq_None_iff)
  have b: "\<forall>(ip, ad) \<in> set (subscriptions h). ad < length (heap h)"
    using assms(1) by (simp add: reg_inv_def)
  then have f: "length (heap h) \<notin> snd ` set (subscriptions h)"
    by fastforce
  have c: "\<forall>ad < length (heap h). (clients (heap h ! ad) \<noteq> []) = (ad \<in> snd ` set (subscriptions h))"
    using assms(1) by (simp add: reg_inv_def registered_def)
  show ?thesis
    using assms(1) k b f c
    by (auto simp: subscribe_new [OF assms(2)] reg_inv_def registered_def nth_append less_Suc_eq)
qed

lemma timer_inv_subscribe_new:
  assumes "reg_inv h" "timer_inv h" "map_of (subscriptions h) ip = None"
  shows "timer_inv (subscribe_at h ip i ws)"
proof -
  let ?e = "\<lparr>clients = [ws], intervalMs = i, timer = next_timer h\<rparr>"
  let ?h' = "h\<lparr>heap := heap h @ [?e],
       subscriptions := subscriptions h @ [(ip, length (heap h))],
       timers := timers h @ [(next_timer h, ip, length (heap h), i)],
       next_timer := Suc (next_timer h)\<rparr>"
  have b: "\<forall>(ip, ad) \<in> set (subscriptions h). ad < length (heap h)"
    using assms(1) by (simp add: reg_inv_def)
  have d: "distinct (map fst (timers h))"
    and n: "\<forall>t \<in> set (timers h). fst t < next_timer h"
    and t3: "\<forall>(tid, ip, ad, d) \<in> set (timers h). (ip, ad) \<in> set (subscriptions h) \<and> timer (heap h ! ad) = tid"
    and t4: "\<forall>(ip, ad) \<in> set (subscriptions h). \<exists>d. (timer (heap h ! ad), ip, ad, d) \<in> set (timers h)"
    using assms(2) by (simp_all add: timer_inv_def)
  have fresh: "next_timer h \<notin> fst ` set (timers h)"
    using n by fastforce
  have 1: "distinct (map fst (timers ?h'))"
    using d fresh by simp
  have 2: "\<forall>t \<in> set (timers ?h'). fst t < next_timer ?h'"
    using n by (auto simp: less_Suc_eq)
  have 3: "\<forall>(tid, ip', ad', d) \<in> set (timers ?h'). (ip', ad') \<in> set (subscriptions ?h') \<and> timer (heap ?h' ! ad') = tid"
  proof (clarify)
    fix tid ip' ad' d'
    assume m: "(tid, ip', ad', d') \<in> set (timers ?h')"
    show "(ip', ad') \<in> set (subscriptions ?h') \<and> timer (heap ?h' ! ad') = tid"
    proof (cases "(tid, ip', ad', d') = (next_timer h, ip, length (heap h), i)")
      case True
      then show ?thesis by simp
    next
      case False
      then have o: "(tid, ip', ad', d') \<in> set (timers h)"
        using m by auto
      from o t3 have s: "(ip', ad') \<in> set (subscriptions h)" and e: "timer (heap h ! ad') = tid"
        by auto
      from s b have "ad' < length (heap h)" by auto
      then show ?thesis using s e by (simp add: nth_append)
    qed
  qed
  have 4: "\<forall>(ip', ad') \<in> set (subscriptions ?h'). \<exists>d. (timer (heap ?h' ! ad'), ip', ad', d) \<in> set (timers ?h')"
  proof (clarify)
    fix ip' ad'
    assume m: "(ip', ad') \<in> set (subscriptions ?h')"
    show "\<exists>d. (timer (heap ?h' ! ad'), ip', ad', d) \<in> set (timers ?h')"
    proof (cases "(ip', ad') = (ip, length (heap h))")
      case True
      then show ?thesis by auto
    next
      case False
      then have s: "(ip', ad') \<in> set (subscriptions h)"
        using m by auto
      from s b have l: "ad' < length (heap h)" by auto
      obtain d' where "(timer (heap h ! ad'), ip', ad', d') \<in> set (timers h)"
        using t4 s by fastforce
      then show ?thesis using l by (auto simp: nth_append)
    qed
  qed
  have "timer_inv ?h'"
    unfolding timer_inv_def using 1 2 3 4 by blast
  then show ?thesis
    by (simp add: subscribe_new [OF assms(3)])
qed

text \<open>An update of a registered entry that leaves it with subscribers keeps the registry sound.\<close>

lemma registered_frame [simp]:
  "registered (h\<lparr>heap := H\<rparr>) ad = registered h ad"
  "registered (h\<lparr>timers := T\<rparr>) ad = registered h ad"
  "registered (h\<lparr>next_timer := N\<rparr>) ad = registered h ad"
  "registered (h\<lparr>outbox := ob\<rparr>) ad = registered h ad"
  "registered (h\<lparr>inflight := ys\<rparr>) ad = registered h ad"
  by (simp_all add: registered_def)

lemma reg_inv_update:
  assumes "reg_inv h" "(ip, ad) \<in> set (subscriptions h)" "clients e \<noteq> []"
  shows "reg_inv (h\<lparr>heap := (heap h)[ad := e]\<rparr>)"
proof -
  have r: "registered h ad"
    using assms(2) by (force simp: registered_def)
  have c: "\<forall>a < length (heap h). (clients (heap h ! a) \<noteq> []) = registered h a"
    using assms(1) by (simp add: reg_inv_def)
  have "\<forall>a < length (heap h). (clients ((heap h)[ad := e] ! a) \<noteq> []) = registered h a"
  proof (intro allI impI)
    fix a assume a: "a < length (heap h)"
    show "(clients ((heap h)[ad := e] ! a) \<noteq> []) = registered h a"
      using a r c assms(3) by (cases "a = ad") (simp_all add: nth_list_update)
  qed
  then show ?thesis
    using assms(1) by (simp add: reg_inv_def)
qed

lemma reg_inv_frame [simp]:
  "reg_inv (h\<lparr>timers := T\<rparr>) = reg_inv h"
  "reg_inv (h\<lparr>next_timer := N\<rparr>) = reg_inv h"
  "reg_inv (h\<lparr>outbox := ob\<rparr>) = reg_inv h"
  "reg_inv (h\<lparr>inflight := ys\<rparr>) = reg_inv h"
  by (simp_all add: reg_inv_def)

lemma reg_inv_subscribe_old:
  assumes "reg_inv h" "map_of (subscriptions h) ip = Some ad"
  shows "reg_inv (subscribe_at h ip i ws)"
proof -
  have m: "(ip, ad) \<in> set (subscriptions h)"
    using assms(2) by (rule map_of_SomeD)
  show ?thesis
  proof (cases "i < intervalMs (heap h ! ad)")
    case True
    have "reg_inv (h\<lparr>heap := (heap h)[ad := (heap h ! ad)\<lparr>intervalMs := i, timer := next_timer h,
                          clients := set_add (clients (heap h ! ad)) ws\<rparr>]\<rparr>)"
      by (rule reg_inv_update [OF assms(1) m]) simp
    then show ?thesis
      by (simp add: subscribe_retune [OF assms(2) True])
  next
    case False
    have "reg_inv (h\<lparr>heap := (heap h)[ad := (heap h ! ad)\<lparr>clients := set_add (clients (heap h ! ad)) ws\<rparr>]\<rparr>)"
      by (rule reg_inv_update [OF assms(1) m]) simp
    then show ?thesis
      by (simp add: subscribe_keep [OF assms(2) False])
  qed
qed

lemma nth_update_clients:
  "timer (xs[ad := (xs ! ad)\<lparr>clients := c\<rparr>] ! a) = timer (xs ! a)"
  "intervalMs (xs[ad := (xs ! ad)\<lparr>clients := c\<rparr>] ! a) = intervalMs (xs ! a)"
  by (cases "ad < length xs"; cases "a = ad"; simp add: list_update_beyond)+

lemma timer_inv_frame [simp]:
  "timer_inv (h\<lparr>outbox := ob\<rparr>) = timer_inv h"
  "timer_inv (h\<lparr>inflight := ys\<rparr>) = timer_inv h"
  by (simp_all add: timer_inv_def)

lemma timer_inv_clients:
  assumes "timer_inv h"
  shows "timer_inv (h\<lparr>heap := (heap h)[ad := (heap h ! ad)\<lparr>clients := c\<rparr>]\<rparr>)"
  using assms by (simp add: timer_inv_def nth_update_clients)

lemma timer_of_registered:
  assumes "timer_inv h" "(ip, ad) \<in> set (subscriptions h)" "(ip', ad') \<in> set (subscriptions h)"
    and "timer (heap h ! ad') = timer (heap h ! ad)"
  shows "ip' = ip \<and> ad' = ad"
proof -
  obtain d where d: "(timer (heap h ! ad), ip, ad, d) \<in> set (timers h)"
    using assms(1,2) by (fastforce simp: timer_inv_def)
  obtain d' where d': "(timer (heap h ! ad'), ip', ad', d') \<in> set (timers h)"
    using assms(1,3) by (fastforce simp: timer_inv_def)
  have "distinct (map fst (timers h))"
    using assms(1) by (simp add: timer_inv_def)
  then have "(ip, ad, d) = (ip', ad', d')"
    using d d' assms(4) by (metis eq_key_imp_eq_value)
  then show ?thesis by simp
qed

lemma timer_inv_retune:
  assumes "reg_inv h" "timer_inv h" "(ip, ad) \<in> set (subscriptions h)"
  shows "timer_inv (h\<lparr>heap := (heap h)[ad := (heap h ! ad)\<lparr>intervalMs := i, timer := next_timer h,
                                                          clients := c\<rparr>],
       timers := filter (\<lambda>t. fst t \<noteq> timer (heap h ! ad)) (timers h) @ [(next_timer h, ip, ad, i)],
       next_timer := Suc (next_timer h)\<rparr>)"
    (is "timer_inv ?h'")
proof -
  have len: "ad < length (heap h)"
    using assms(1,3) by (fastforce simp: reg_inv_def)
  have ds: "distinct (map snd (subscriptions h))"
    using assms(1) by (simp add: reg_inv_def)
  have d: "distinct (map fst (timers h))"
    and n: "\<forall>t \<in> set (timers h). fst t < next_timer h"
    and t3: "\<forall>(tid, ip, ad, d) \<in> set (timers h). (ip, ad) \<in> set (subscriptions h) \<and> timer (heap h ! ad) = tid"
    and t4: "\<forall>(ip, ad) \<in> set (subscriptions h). \<exists>d. (timer (heap h ! ad), ip, ad, d) \<in> set (timers h)"
    using assms(2) by (simp_all add: timer_inv_def)
  have fresh: "next_timer h \<notin> fst ` set (timers h)"
    using n by fastforce
  have 1: "distinct (map fst (timers ?h'))"
    using d fresh by (auto simp: distinct_map_filter)
  have 2: "\<forall>t \<in> set (timers ?h'). fst t < next_timer ?h'"
    using n by (auto simp: less_Suc_eq)
  have 3: "\<forall>(tid, ip', ad', d) \<in> set (timers ?h'). (ip', ad') \<in> set (subscriptions ?h') \<and> timer (heap ?h' ! ad') = tid"
  proof (clarify)
    fix tid ip' ad' d'
    assume m: "(tid, ip', ad', d') \<in> set (timers ?h')"
    show "(ip', ad') \<in> set (subscriptions ?h') \<and> timer (heap ?h' ! ad') = tid"
    proof (cases "(tid, ip', ad', d') = (next_timer h, ip, ad, i)")
      case True
      then show ?thesis using assms(3) len by simp
    next
      case False
      then have o: "(tid, ip', ad', d') \<in> set (timers h)" and ne: "tid \<noteq> timer (heap h ! ad)"
        using m by auto
      from o t3 have s: "(ip', ad') \<in> set (subscriptions h)" and e: "timer (heap h ! ad') = tid"
        by auto
      from e ne have "ad' \<noteq> ad" by auto
      then show ?thesis using s e by simp
    qed
  qed
  have 4: "\<forall>(ip', ad') \<in> set (subscriptions ?h'). \<exists>d. (timer (heap ?h' ! ad'), ip', ad', d) \<in> set (timers ?h')"
  proof (clarify)
    fix ip' ad'
    assume m: "(ip', ad') \<in> set (subscriptions ?h')"
    then have s: "(ip', ad') \<in> set (subscriptions h)" by simp
    show "\<exists>d. (timer (heap ?h' ! ad'), ip', ad', d) \<in> set (timers ?h')"
    proof (cases "ad' = ad")
      case True
      then have "ip' = ip"
        using ds s assms(3) by (metis reg_unique_ip)
      then show ?thesis using True len by auto
    next
      case False
      obtain d' where d': "(timer (heap h ! ad'), ip', ad', d') \<in> set (timers h)"
        using t4 s by fastforce
      have "timer (heap h ! ad') \<noteq> timer (heap h ! ad)"
        using timer_of_registered [OF assms(2) assms(3) s] False by blast
      then show ?thesis using d' False by auto
    qed
  qed
  show ?thesis
    unfolding timer_inv_def using 1 2 3 4 by blast
qed

lemma timer_inv_subscribe_old:
  assumes "reg_inv h" "timer_inv h" "map_of (subscriptions h) ip = Some ad"
  shows "timer_inv (subscribe_at h ip i ws)"
proof -
  have m: "(ip, ad) \<in> set (subscriptions h)"
    using assms(3) by (rule map_of_SomeD)
  show ?thesis
  proof (cases "i < intervalMs (heap h ! ad)")
    case True
    show ?thesis
      unfolding subscribe_retune [OF assms(3) True]
      by (rule timer_inv_retune [OF assms(1,2) m])
  next
    case False
    show ?thesis
      unfolding subscribe_keep [OF assms(3) False]
      by (rule timer_inv_clients [OF assms(2)])
  qed
qed

lemma hub_inv_subscribe_at:
  assumes "hub_inv h"
  shows "hub_inv (subscribe_at h ip i ws)"
proof (cases "map_of (subscriptions h) ip")
  case None
  then show ?thesis
    using assms reg_inv_subscribe_new timer_inv_subscribe_new by (simp add: hub_inv_def)
next
  case (Some ad)
  then show ?thesis
    using assms reg_inv_subscribe_old timer_inv_subscribe_old by (simp add: hub_inv_def)
qed

text \<open>Removing a socket from a registered entry: the entry stays, or it goes with its timer.\<close>

lemma remove_at_eq:
  assumes "map_of (subscriptions h) ip = Some ad" "ad < length (heap h)"
  shows "remove_at h ws (ip, ad) =
     (if set_delete (clients (heap h ! ad)) ws = []
      then h\<lparr>heap := (heap h)[ad := (heap h ! ad)\<lparr>clients := set_delete (clients (heap h ! ad)) ws\<rparr>],
             timers := filter (\<lambda>t. fst t \<noteq> timer (heap h ! ad)) (timers h),
             subscriptions := filter (\<lambda>p. fst p \<noteq> ip) (subscriptions h)\<rparr>
      else h\<lparr>heap := (heap h)[ad := (heap h ! ad)\<lparr>clients := set_delete (clients (heap h ! ad)) ws\<rparr>]\<rparr>)"
  using assms
  by (simp add: remove_at_def cleanupSubscription_def clients_delete_def clearInterval_def)

lemma remove_at_heap:
  "heap (remove_at h ws p) =
     (heap h)[snd p := (heap h ! snd p)\<lparr>clients := set_delete (clients (heap h ! snd p)) ws\<rparr>]"
  by (simp add: remove_at_def cleanupSubscription_def clients_delete_def clearInterval_def
      split: option.splits)

lemma filter_other_keys:
  assumes "distinct (map fst ps)" "(k, v) \<in> set ps"
  shows "filter (\<lambda>p. fst p \<noteq> k) ps = filter (\<lambda>p. p \<noteq> (k, v)) ps"
proof (rule filter_cong [OF refl])
  fix p assume m: "p \<in> set ps"
  have "p = (k, v)" if "fst p = k"
  proof -
    have "(k, snd p) \<in> set ps"
      using m that by (metis prod.collapse)
    then have "snd p = v"
      using assms by (metis eq_key_imp_eq_value)
    then show ?thesis
      using that by (metis prod.collapse)
  qed
  then show "(fst p \<noteq> k) = (p \<noteq> (k, v))"
    by auto
qed

lemma reg_inv_drop:
  assumes "reg_inv h" "(ip, ad) \<in> set (subscriptions h)" "clients e = []"
  shows "reg_inv (h\<lparr>heap := (heap h)[ad := e], timers := T,
                   subscriptions := filter (\<lambda>p. fst p \<noteq> ip) (subscriptions h)\<rparr>)"
    (is "reg_inv ?h'")
proof -
  have df: "distinct (map fst (subscriptions h))" and ds: "distinct (map snd (subscriptions h))"
    and b: "\<forall>(ip, ad) \<in> set (subscriptions h). ad < length (heap h)"
    and c: "\<forall>a < length (heap h). (clients (heap h ! a) \<noteq> []) = registered h a"
    using assms(1) by (simp_all add: reg_inv_def)
  have f: "subscriptions ?h' = filter (\<lambda>p. p \<noteq> (ip, ad)) (subscriptions h)"
    using filter_other_keys [OF df assms(2)] by simp
  have r: "\<And>a. registered ?h' a = (registered h a \<and> a \<noteq> ad)"
  proof -
    fix a
    show "registered ?h' a = (registered h a \<and> a \<noteq> ad)"
    proof
      assume "registered ?h' a"
      then have "a \<in> snd ` {p \<in> set (subscriptions h). p \<noteq> (ip, ad)}"
        unfolding registered_def f by simp
      then obtain p where m: "p \<in> set (subscriptions h)" and ne: "p \<noteq> (ip, ad)" and pa: "snd p = a"
        by blast
      have "a \<noteq> ad"
      proof
        assume "a = ad"
        then have "(fst p, ad) \<in> set (subscriptions h)"
          using m pa by (metis prod.collapse)
        then have "fst p = ip"
          using reg_unique_ip [OF ds assms(2)] by blast
        then show False
          using ne pa \<open>a = ad\<close> by (metis prod.collapse)
      qed
      then show "registered h a \<and> a \<noteq> ad"
        using m pa by (force simp: registered_def)
    next
      assume "registered h a \<and> a \<noteq> ad"
      then show "registered ?h' a"
        unfolding registered_def f by force
    qed
  qed
  have 4: "\<forall>a < length (heap ?h'). (clients (heap ?h' ! a) \<noteq> []) = registered ?h' a"
  proof (intro allI impI)
    fix a assume "a < length (heap ?h')"
    then have a: "a < length (heap h)" by simp
    show "(clients (heap ?h' ! a) \<noteq> []) = registered ?h' a"
      using a c assms(3) by (cases "a = ad") (simp_all add: r nth_list_update)
  qed
  have 1: "distinct (map fst (subscriptions ?h'))"
    using df by (simp add: distinct_map_filter)
  have 2: "distinct (map snd (subscriptions ?h'))"
    using ds by (simp add: distinct_map_filter)
  have 3: "\<forall>(ip, ad) \<in> set (subscriptions ?h'). ad < length (heap ?h')"
    using b by auto
  show ?thesis
    unfolding reg_inv_def using 1 2 3 4 by blast
qed

lemma timer_inv_drop:
  assumes "reg_inv h" "timer_inv h" "(ip, ad) \<in> set (subscriptions h)"
  shows "timer_inv (h\<lparr>heap := (heap h)[ad := (heap h ! ad)\<lparr>clients := c\<rparr>],
                     timers := filter (\<lambda>t. fst t \<noteq> timer (heap h ! ad)) (timers h),
                     subscriptions := filter (\<lambda>p. fst p \<noteq> ip) (subscriptions h)\<rparr>)"
    (is "timer_inv ?h'")
proof -
  have df: "distinct (map fst (subscriptions h))"
    using assms(1) by (simp add: reg_inv_def)
  have d: "distinct (map fst (timers h))"
    and n: "\<forall>t \<in> set (timers h). fst t < next_timer h"
    and t3: "\<forall>(tid, ip, ad, d) \<in> set (timers h). (ip, ad) \<in> set (subscriptions h) \<and> timer (heap h ! ad) = tid"
    and t4: "\<forall>(ip, ad) \<in> set (subscriptions h). \<exists>d. (timer (heap h ! ad), ip, ad, d) \<in> set (timers h)"
    using assms(2) by (simp_all add: timer_inv_def)
  have 1: "distinct (map fst (timers ?h'))"
    using d by (simp add: distinct_map_filter)
  have 2: "\<forall>t \<in> set (timers ?h'). fst t < next_timer ?h'"
    using n by auto
  have 3: "\<forall>(tid, ip', ad', d) \<in> set (timers ?h'). (ip', ad') \<in> set (subscriptions ?h') \<and> timer (heap ?h' ! ad') = tid"
  proof (clarify)
    fix tid ip' ad' d'
    assume m: "(tid, ip', ad', d') \<in> set (timers ?h')"
    then have o: "(tid, ip', ad', d') \<in> set (timers h)" and ne: "tid \<noteq> timer (heap h ! ad)"
      by auto
    from o t3 have s: "(ip', ad') \<in> set (subscriptions h)" and e: "timer (heap h ! ad') = tid"
      by auto
    have "ip' \<noteq> ip"
    proof
      assume "ip' = ip"
      then have "ad' = ad"
        using reg_unique_ad [OF df assms(3)] s by blast
      then show False using e ne by simp
    qed
    then show "(ip', ad') \<in> set (subscriptions ?h') \<and> timer (heap ?h' ! ad') = tid"
      using s e by (simp add: nth_update_clients)
  qed
  have 4: "\<forall>(ip', ad') \<in> set (subscriptions ?h'). \<exists>d. (timer (heap ?h' ! ad'), ip', ad', d) \<in> set (timers ?h')"
  proof (clarify)
    fix ip' ad'
    assume m: "(ip', ad') \<in> set (subscriptions ?h')"
    then have s: "(ip', ad') \<in> set (subscriptions h)" and ne: "ip' \<noteq> ip"
      by auto
    obtain d' where d': "(timer (heap h ! ad'), ip', ad', d') \<in> set (timers h)"
      using t4 s by fastforce
    have "timer (heap h ! ad') \<noteq> timer (heap h ! ad)"
      using timer_of_registered [OF assms(2) assms(3) s] ne by blast
    then show "\<exists>d. (timer (heap ?h' ! ad'), ip', ad', d) \<in> set (timers ?h')"
      using d' by (auto simp: nth_update_clients)
  qed
  show ?thesis
    unfolding timer_inv_def using 1 2 3 4 by blast
qed

lemma hub_inv_remove_at:
  assumes "hub_inv h" "(ip, ad) \<in> set (subscriptions h)"
  shows "hub_inv (remove_at h ws (ip, ad))"
proof -
  have r: "reg_inv h" and t: "timer_inv h"
    using assms(1) by (simp_all add: hub_inv_def)
  have m: "map_of (subscriptions h) ip = Some ad"
    using r assms(2) by (simp add: reg_inv_def)
  have l: "ad < length (heap h)"
    using r assms(2) by (fastforce simp: reg_inv_def)
  let ?e = "(heap h ! ad)\<lparr>clients := set_delete (clients (heap h ! ad)) ws\<rparr>"
  show ?thesis
  proof (cases "set_delete (clients (heap h ! ad)) ws = []")
    case True
    have "reg_inv (h\<lparr>heap := (heap h)[ad := ?e],
                     timers := filter (\<lambda>t. fst t \<noteq> timer (heap h ! ad)) (timers h),
                     subscriptions := filter (\<lambda>p. fst p \<noteq> ip) (subscriptions h)\<rparr>)"
      by (rule reg_inv_drop [OF r assms(2)]) (simp add: True)
    then show ?thesis
      using timer_inv_drop [OF r t assms(2), of "set_delete (clients (heap h ! ad)) ws"] True
      by (simp add: remove_at_eq [OF m l] hub_inv_def)
  next
    case False
    have "reg_inv (h\<lparr>heap := (heap h)[ad := ?e]\<rparr>)"
      by (rule reg_inv_update [OF r assms(2)]) (simp add: False)
    then show ?thesis
      using timer_inv_clients [OF t, of ad "set_delete (clients (heap h ! ad)) ws"] False
      by (simp add: remove_at_eq [OF m l] hub_inv_def)
  qed
qed

text \<open>The close handler is a walk that removes the socket from one registered entry after another.\<close>

lemma on_close_fold: "on_close h ws = foldl (\<lambda>h' p. remove_at h' ws p) h (subscriptions h)"
  by (simp add: on_close_def remove_at_def case_prod_unfold)

lemma remove_at_subs_subset:
  "set (subscriptions (remove_at h ws p)) \<subseteq> set (subscriptions h)"
  by (auto simp: remove_at_def cleanupSubscription_def clients_delete_def clearInterval_def
      split: option.splits if_splits)

lemma remove_at_timers_subset:
  "set (timers (remove_at h ws p)) \<subseteq> set (timers h)"
  by (auto simp: remove_at_def cleanupSubscription_def clients_delete_def clearInterval_def
      split: option.splits if_splits)

lemma remove_at_subs_keep:
  assumes "hub_inv h" "p \<in> set (subscriptions h)" "q \<in> set (subscriptions h)" "q \<noteq> p"
  shows "q \<in> set (subscriptions (remove_at h ws p))"
proof -
  obtain ip ad where p: "p = (ip, ad)" by (cases p)
  have r: "reg_inv h"
    using assms(1) by (simp add: hub_inv_def)
  have df: "distinct (map fst (subscriptions h))"
    using r by (simp add: reg_inv_def)
  have m: "map_of (subscriptions h) ip = Some ad"
    using df assms(2) p by simp
  have l: "ad < length (heap h)"
    using r assms(2) p by (fastforce simp: reg_inv_def)
  have "filter (\<lambda>x. fst x \<noteq> ip) (subscriptions h) = filter (\<lambda>x. x \<noteq> (ip, ad)) (subscriptions h)"
    using filter_other_keys [OF df] assms(2) p by blast
  then show ?thesis
    using assms(3,4) p by (simp add: remove_at_eq [OF m l])
qed

lemma fold_remove_inv:
  assumes "hub_inv h" "set ps \<subseteq> set (subscriptions h)" "distinct ps"
  shows "hub_inv (foldl (\<lambda>h' p. remove_at h' ws p) h ps)"
  using assms
proof (induction ps arbitrary: h)
  case Nil
  then show ?case by simp
next
  case (Cons p ps)
  obtain ip ad where p: "p = (ip, ad)" by (cases p)
  have pm: "p \<in> set (subscriptions h)"
    using Cons.prems(2) by simp
  have 1: "hub_inv (remove_at h ws p)"
    using hub_inv_remove_at [OF Cons.prems(1)] pm p by blast
  have 2: "set ps \<subseteq> set (subscriptions (remove_at h ws p))"
  proof
    fix q assume q: "q \<in> set ps"
    then have "q \<in> set (subscriptions h)" and "q \<noteq> p"
      using Cons.prems(2,3) by auto
    then show "q \<in> set (subscriptions (remove_at h ws p))"
      using remove_at_subs_keep [OF Cons.prems(1) pm] by blast
  qed
  have 3: "distinct ps"
    using Cons.prems(3) by simp
  show ?case
    using Cons.IH [OF 1 2 3] by simp
qed

lemma distinct_subscriptions:
  assumes "reg_inv h"
  shows "distinct (subscriptions h)"
  using assms by (metis distinct_map reg_inv_def)

lemma hub_inv_on_close:
  assumes "hub_inv h"
  shows "hub_inv (on_close h ws)"
  unfolding on_close_fold
  using assms by (intro fold_remove_inv) (simp_all add: hub_inv_def distinct_subscriptions)

lemma hub_inv_frame [simp]:
  "hub_inv (h\<lparr>outbox := ob\<rparr>) = hub_inv h"
  "hub_inv (h\<lparr>inflight := ys\<rparr>) = hub_inv h"
  by (simp_all add: hub_inv_def)

lemma hub_inv_send [simp]: "hub_inv (send h ws m) = hub_inv h"
  by (simp add: send_def)

text \<open>The handlers, in terms of the two steps.\<close>

lemma on_message_subscribe:
  "on_message h ws (Subscribe ip iv) =
     (if ip \<noteq> [] then
        let h2 = subscribe_at h ip (case iv of JNum x \<Rightarrow> Math_max (Fin 500) x | _ \<Rightarrow> Fin 2000) ws
        in send h2 ws (SubscribedMsg ip
             (intervalMs (heap h2 ! fst (ensurePolling h ip
                (case iv of JNum x \<Rightarrow> Math_max (Fin 500) x | _ \<Rightarrow> Fin 2000)))))
      else h)"
  by (simp add: on_message_def subscribe_at_def Let_def split: prod.splits)

lemma on_message_unsubscribe:
  "on_message h ws (Unsubscribe ip) =
     (if ip \<noteq> [] then
        send (case map_of (subscriptions h) ip of
                Some ad \<Rightarrow> remove_at h ws (ip, ad)
              | None \<Rightarrow> h) ws (UnsubscribedMsg ip)
      else h)"
  by (simp add: on_message_def remove_at_def Let_def split: option.splits)

lemma on_connection_eq:
  "on_connection h ws ipo interval =
     (case ipo of
        None \<Rightarrow> h
      | Some ip \<Rightarrow>
          if ip \<noteq> [] then
            (subscribe_at h ip (case interval of None \<Rightarrow> Fin 2000 | Some x \<Rightarrow> Math_max (Fin 500) x) ws)
              \<lparr>inflight := inflight (subscribe_at h ip
                  (case interval of None \<Rightarrow> Fin 2000 | Some x \<Rightarrow> Math_max (Fin 500) x) ws) @ [Once ip ws]\<rparr>
          else h)"
  by (simp add: on_connection_def subscribe_at_def Let_def split: option.splits prod.splits)

lemma hub_inv_fire: "hub_inv (fire h tid) = hub_inv h"
  by (simp add: fire_def split: option.splits prod.splits)

lemma hub_inv_complete: "hub_inv (complete h k n now ready throws) = hub_inv h"
  by (simp add: complete_def deliver_def Let_def split: assembly.splits prod.splits option.splits)

lemma hub_inv_step:
  assumes "hub_inv h"
  shows "hub_inv (step h ev)"
proof (cases ev)
  case (Connection ws ipo interval)
  then show ?thesis
    using assms by (simp add: on_connection_eq hub_inv_subscribe_at split: option.splits)
next
  case (Message ws msg)
  show ?thesis
  proof (cases msg)
    case (Subscribe ip iv)
    then show ?thesis
      using assms Message by (simp add: on_message_subscribe hub_inv_subscribe_at Let_def)
  next
    case (Unsubscribe ip)
    then show ?thesis
      using assms Message
      by (auto simp: on_message_unsubscribe split: option.splits
          intro: hub_inv_remove_at dest: map_of_SomeD)
  next
    case (SnapshotReq ip)
    then show ?thesis
      using assms Message by (simp add: on_message_def)
  next
    case Unparsable
    then show ?thesis
      using assms Message by (simp add: on_message_def)
  next
    case Ignored
    then show ?thesis
      using assms Message by (simp add: on_message_def)
  qed
next
  case (Close ws)
  then show ?thesis
    using assms by (simp add: hub_inv_on_close)
next
  case (Fire tid)
  then show ?thesis
    using assms by (simp add: hub_inv_fire)
next
  case (Complete k n now ready throws)
  then show ?thesis
    using assms by (simp add: hub_inv_complete)
qed

lemma hub_inv_hub0: "hub_inv hub0"
  by (simp add: hub_inv_def reg_inv_def timer_inv_def hub0_def)

lemma hub_inv_foldl: "hub_inv h \<Longrightarrow> hub_inv (foldl step h evs)"
  by (induction evs arbitrary: h) (simp_all add: hub_inv_step)

lemma hub_inv_run: "hub_inv (run evs)"
  by (simp add: run_def hub_inv_foldl hub_inv_hub0)

section \<open>Properties of the polling loop\<close>

lemma run_snoc: "run (evs @ [ev]) = step (run evs) ev"
  by (simp add: run_def)


lemma polls_in_flight_append:
  "polls_in_flight (h\<lparr>inflight := inflight h @ [Poll ip ad]\<rparr>) ip = Suc (polls_in_flight h ip)"
  by (simp add: polls_in_flight_def)

lemma fire_active:
  "find (\<lambda>t. fst t = tid) (timers h) = Some (tid', ip, ad, d) \<Longrightarrow>
   fire h tid = h\<lparr>inflight := inflight h @ [Poll ip ad]\<rparr>"
  by (simp add: fire_def)

lemma hub_A_eq: "hub_A =
  \<lparr>heap = [\<lparr>clients = [1], intervalMs = Fin 5000, timer = 0\<rparr>],
   subscriptions = [(''10.0.0.5'', 0)],
   timers = [(0, ''10.0.0.5'', 0, Fin 5000)],
   next_timer = 1, inflight = [],
   outbox = [(1, SubscribedMsg ''10.0.0.5'' (Fin 5000))]\<rparr>"
  by code_simp

text \<open>
  C1, as stated, fails: one subscriber, and the timer fires twice before the first
  assembly settles. Two poll assemblies for the device are in flight; the second tick
  was not skipped.
\<close>

theorem single_flight_counterexample:
  "\<not> polls_in_flight (run [sub_A, Fire 0, Fire 0]) ''10.0.0.5'' \<le> 1"
proof -
  have "run [sub_A, Fire 0, Fire 0] = fire (fire hub_A 0) 0"
    by (simp add: run_def hub_A_def)
  then show ?thesis
    by (simp add: hub_A_eq fire_def polls_in_flight_def)
qed

lemma find_timer:
  "distinct (map fst ts) \<Longrightarrow> (tid, x) \<in> set ts \<Longrightarrow> find (\<lambda>t. fst t = tid) ts = Some (tid, x)"
  by (induction ts) force+

lemma registered_timer_set:
  assumes "map_of (subscriptions (run evs)) ip = Some ad"
  shows "\<exists>d. find (\<lambda>t. fst t = timer (heap (run evs) ! ad)) (timers (run evs)) =
              Some (timer (heap (run evs) ! ad), ip, ad, d)"
proof -
  have i: "hub_inv (run evs)"
    by (rule hub_inv_run)
  have m: "(ip, ad) \<in> set (subscriptions (run evs))"
    using assms by (rule map_of_SomeD)
  have "\<forall>(ip, ad) \<in> set (subscriptions (run evs)).
          \<exists>d. (timer (heap (run evs) ! ad), ip, ad, d) \<in> set (timers (run evs))"
    using i by (simp add: hub_inv_def timer_inv_def)
  then obtain d where d: "(timer (heap (run evs) ! ad), ip, ad, d) \<in> set (timers (run evs))"
    using m by auto
  have "distinct (map fst (timers (run evs)))"
    using i by (simp add: hub_inv_def timer_inv_def)
  then have "find (\<lambda>t. fst t = timer (heap (run evs) ! ad)) (timers (run evs)) =
              Some (timer (heap (run evs) ! ad), ip, ad, d)"
    using d by (rule find_timer)
  then show ?thesis
    by (rule exI)
qed

lemma fire_repeated:
  assumes "find (\<lambda>t. fst t = tid) (timers h) = Some (tid, ip, ad, d)"
  shows "inflight (foldl step h (replicate k (Fire tid))) = inflight h @ replicate k (Poll ip ad)
       \<and> timers (foldl step h (replicate k (Fire tid))) = timers h"
  using assms
proof (induction k arbitrary: h)
  case 0
  then show ?case by simp
next
  case (Suc k)
  have f: "fire h tid = h\<lparr>inflight := inflight h @ [Poll ip ad]\<rparr>"
    using Suc.prems by (rule fire_active)
  have "find (\<lambda>t. fst t = tid) (timers (fire h tid)) = Some (tid, ip, ad, d)"
    using Suc.prems by (simp add: f)
  from Suc.IH [OF this] show ?case
    by (simp add: f replicate_app_Cons_same)
qed

lemma polls_in_flight_replicate:
  "polls_in_flight (h'\<lparr>inflight := inflight h @ replicate k (Poll ip ad)\<rparr>) ip = polls_in_flight h ip + k"
  by (simp add: polls_in_flight_def)

text \<open>
  C1, amended. For every address that has an entry, in any state the hub reaches, the
  entry's timer is set, and each tick of it starts a new snapshot assembly for that
  address whether or not earlier ones are still running: a tick adds the assembly to
  those in flight and changes nothing else, and after \<open>k\<close> ticks in a row, with no
  assembly settling in between, \<open>k\<close> more poll assemblies for the address are in flight.
\<close>

theorem fire_always_starts_assembly:
  assumes "map_of (subscriptions (run evs)) ip = Some ad"
  shows "(\<exists>d. find (\<lambda>t. fst t = timer (heap (run evs) ! ad)) (timers (run evs)) =
              Some (timer (heap (run evs) ! ad), ip, ad, d))
       \<and> fire (run evs) (timer (heap (run evs) ! ad)) =
           (run evs)\<lparr>inflight := inflight (run evs) @ [Poll ip ad]\<rparr>
       \<and> polls_in_flight (foldl step (run evs) (replicate k (Fire (timer (heap (run evs) ! ad))))) ip =
           polls_in_flight (run evs) ip + k"
proof -
  obtain d where d: "find (\<lambda>t. fst t = timer (heap (run evs) ! ad)) (timers (run evs)) =
              Some (timer (heap (run evs) ! ad), ip, ad, d)"
    using registered_timer_set [OF assms] by blast
  have 1: "fire (run evs) (timer (heap (run evs) ! ad)) =
           (run evs)\<lparr>inflight := inflight (run evs) @ [Poll ip ad]\<rparr>"
    using d by (rule fire_active)
  have "inflight (foldl step (run evs) (replicate k (Fire (timer (heap (run evs) ! ad))))) =
          inflight (run evs) @ replicate k (Poll ip ad)"
    using fire_repeated [OF d] by blast
  then have 2: "polls_in_flight (foldl step (run evs) (replicate k (Fire (timer (heap (run evs) ! ad))))) ip =
           polls_in_flight (run evs) ip + k"
    by (simp add: polls_in_flight_def)
  show ?thesis
    using d 1 2 by blast
qed

theorem fire_always_starts_assembly_witness:
  "map_of (subscriptions hub_A) ''10.0.0.5'' = Some 0
   \<and> polls_in_flight hub_A ''10.0.0.5'' = 0
   \<and> polls_in_flight (foldl step hub_A (replicate 2 (Fire (timer (heap hub_A ! 0))))) ''10.0.0.5'' = 2"
proof -
  have m: "map_of (subscriptions hub_A) ''10.0.0.5'' = Some 0"
    by (simp add: hub_A_eq)
  have p: "polls_in_flight hub_A ''10.0.0.5'' = 0"
    by (simp add: hub_A_eq polls_in_flight_def)
  have "polls_in_flight (foldl step hub_A (replicate 2 (Fire (timer (heap hub_A ! 0))))) ''10.0.0.5'' =
          polls_in_flight hub_A ''10.0.0.5'' + 2"
    using fire_always_starts_assembly [of "[sub_A]" "''10.0.0.5''" 0 2, folded hub_A_def] m
    by blast
  then have "polls_in_flight (foldl step hub_A (replicate 2 (Fire (timer (heap hub_A ! 0))))) ''10.0.0.5'' = 2"
    using p by simp
  then show ?thesis
    using m p by (intro conjI)
qed

subsection \<open>Delivery when a poll assembly settles\<close>

lemma send_each_no_throw:
  "\<forall>w \<in> set cl. ready w \<longrightarrow> throws w = None \<Longrightarrow>
   send_each ready throws m cl = (map (\<lambda>w. (w, m)) (filter ready cl), None)"
  by (induction cl) auto

lemma deliver_frame:
  "heap (deliver h ready throws ip cl data) = heap h
   \<and> subscriptions (deliver h ready throws ip cl data) = subscriptions h
   \<and> timers (deliver h ready throws ip cl data) = timers h
   \<and> next_timer (deliver h ready throws ip cl data) = next_timer h
   \<and> inflight (deliver h ready throws ip cl data) = inflight h"
  by (simp add: deliver_def split: prod.splits option.splits)

lemma complete_frame:
  "heap (complete h k n now ready throws) = heap h
   \<and> subscriptions (complete h k n now ready throws) = subscriptions h
   \<and> timers (complete h k n now ready throws) = timers h
   \<and> next_timer (complete h k n now ready throws) = next_timer h"
  by (simp add: complete_def Let_def deliver_frame split: assembly.splits)

lemma hub_AB_tick_eq: "hub_AB_tick =
  \<lparr>heap = [\<lparr>clients = [1, 2], intervalMs = Fin 2000, timer = 1\<rparr>],
   subscriptions = [(''10.0.0.5'', 0)],
   timers = [(1, ''10.0.0.5'', 0, Fin 2000)],
   next_timer = 2, inflight = [Poll ''10.0.0.5'' 0],
   outbox = [(1, SubscribedMsg ''10.0.0.5'' (Fin 5000)), (2, SubscribedMsg ''10.0.0.5'' (Fin 2000))]\<rparr>"
  by code_simp

lemma hub_A_tick_B_eq: "hub_A_tick_B =
  \<lparr>heap = [\<lparr>clients = [1, 2], intervalMs = Fin 2000, timer = 1\<rparr>],
   subscriptions = [(''10.0.0.5'', 0)],
   timers = [(1, ''10.0.0.5'', 0, Fin 2000)],
   next_timer = 2, inflight = [Poll ''10.0.0.5'' 0],
   outbox = [(1, SubscribedMsg ''10.0.0.5'' (Fin 5000)), (2, SubscribedMsg ''10.0.0.5'' (Fin 2000))]\<rparr>"
  by code_simp

text \<open>
  C7, as stated, fails. Sockets 1 and 2 subscribe, the timer fires and the assembly
  settles. If socket 1 is closed by then, it is skipped and is still in the entry's set
  afterwards. If both are open and the send to socket 1 throws, the loop ends there:
  socket 2 gets no snapshot (it gets the error message), and socket 1 is still in the set.
  And the set is read when the assembly settles, not when the timer fires: a socket that
  subscribes while the assembly is running gets its snapshot.
\<close>

theorem send_failure_counterexample:
  "1 \<in> set (clients (heap (complete hub_AB_tick 0 net_ok ''t''
                                     (\<lambda>w. w = 2) (\<lambda>w. None)) ! 0))
   \<and> 1 \<in> set (clients (heap (complete hub_AB_tick 0 net_ok ''t''
                                       (\<lambda>w. True) (\<lambda>w. if w = 1 then Some ''broken'' else None)) ! 0))
   \<and> map snd (filter (\<lambda>(w, m). w = 2)
        (outbox (complete hub_AB_tick 0 net_ok ''t''
                          (\<lambda>w. True) (\<lambda>w. if w = 1 then Some ''broken'' else None)))) =
      [SubscribedMsg ''10.0.0.5'' (Fin 2000)]
   \<and> map snd (filter (\<lambda>(w, m). w = 2)
        (outbox (complete hub_A_tick_B 0 net_ok ''t'' (\<lambda>w. True) (\<lambda>w. None)))) =
      [SubscribedMsg ''10.0.0.5'' (Fin 2000),
       SnapshotMsg ''10.0.0.5'' (fst (fetchSnapshot net_ok ''10.0.0.5'' ''t''))]"
  by (simp add: hub_AB_tick_eq hub_A_tick_B_eq complete_def deliver_def Let_def)

text \<open>
  C7, amended. When a poll assembly settles, the snapshot is written to every socket
  that is in the entry's set at that moment and is open, in the set's order; sockets
  that are not open are skipped. This holds when no send throws (\<^verbatim>\<open>fetchSnapshot\<close>
  itself never rejects, so a throwing send is the only way into the \<^verbatim>\<open>catch\<close>). In
  every case the assembly leaves the running ones and nothing else changes: no socket is
  removed from any entry, no entry or timer is touched.
\<close>

theorem poll_delivery:
  assumes "k < length (inflight h)" and "inflight h ! k = Poll ip ad"
  shows "heap (complete h k n now ready throws) = heap h
       \<and> subscriptions (complete h k n now ready throws) = subscriptions h
       \<and> timers (complete h k n now ready throws) = timers h
       \<and> inflight (complete h k n now ready throws) = take k (inflight h) @ drop (Suc k) (inflight h)
       \<and> ((\<forall>w \<in> set (clients (heap h ! ad)). ready w \<longrightarrow> throws w = None) \<longrightarrow>
            outbox (complete h k n now ready throws) =
              outbox h @ map (\<lambda>w. (w, SnapshotMsg ip (fst (fetchSnapshot n ip now))))
                             (filter ready (clients (heap h ! ad))))"
  using assms
  by (simp add: complete_frame)
     (simp add: complete_def Let_def deliver_def send_each_no_throw split: prod.splits option.splits)

theorem poll_delivery_witness:
  "0 < length (inflight hub_AB_tick)
   \<and> inflight hub_AB_tick ! 0 = Poll ''10.0.0.5'' 0
   \<and> clients (heap (complete hub_AB_tick 0 net_ok ''t'' (\<lambda>w. w = 2) (\<lambda>w. None)) ! 0) = [1, 2]
   \<and> outbox (complete hub_AB_tick 0 net_ok ''t'' (\<lambda>w. w = 2) (\<lambda>w. None)) =
       [(1, SubscribedMsg ''10.0.0.5'' (Fin 5000)), (2, SubscribedMsg ''10.0.0.5'' (Fin 2000)),
        (2, SnapshotMsg ''10.0.0.5'' (fst (fetchSnapshot net_ok ''10.0.0.5'' ''t'')))]"
proof -
  have 1: "0 < length (inflight hub_AB_tick)"
    by (simp add: hub_AB_tick_eq)
  have 2: "inflight hub_AB_tick ! 0 = Poll ''10.0.0.5'' 0"
    by (simp add: hub_AB_tick_eq)
  show ?thesis
    using poll_delivery [OF 1 2, of net_ok "''t''" "\<lambda>w. w = 2" "\<lambda>w. None"] 1 2
    by (simp add: hub_AB_tick_eq)
qed

section \<open>Entries and their subscribers\<close>

lemma registered_entry:
  assumes "map_of (subscriptions (run evs)) ip = Some ad"
  shows "(ip, ad) \<in> set (subscriptions (run evs))" and "ad < length (heap (run evs))"
    and "clients (heap (run evs) ! ad) \<noteq> []"
proof -
  have r: "reg_inv (run evs)"
    using hub_inv_run [of evs] by (simp add: hub_inv_def)
  show m: "(ip, ad) \<in> set (subscriptions (run evs))"
    using assms by (rule map_of_SomeD)
  show l: "ad < length (heap (run evs))"
    using r m by (fastforce simp: reg_inv_def)
  have "registered (run evs) ad"
    using m by (force simp: registered_def)
  then show "clients (heap (run evs) ! ad) \<noteq> []"
    using r l by (simp add: reg_inv_def)
qed

lemma set_delete_last: "set_delete [ws] ws = []"
  by (simp add: set_delete_def)

lemma set_delete_absent: "ws \<notin> set xs \<Longrightarrow> set_delete xs ws = xs"
  by (auto simp: set_delete_def filter_id_conv)

lemma unsubscribe_last:
  assumes "map_of (subscriptions (run evs)) ip = Some ad" "clients (heap (run evs) ! ad) = [ws]"
    and "ip \<noteq> []"
  shows "map_of (subscriptions (on_message (run evs) ws (Unsubscribe ip))) ip = None"
    and "timer (heap (run evs) ! ad) \<notin> timer_ids (on_message (run evs) ws (Unsubscribe ip))"
    and "\<forall>t \<in> set (timers (on_message (run evs) ws (Unsubscribe ip))). fst (snd t) \<noteq> ip"
proof -
  let ?h = "run evs"
  let ?h' = "on_message ?h ws (Unsubscribe ip)"
  have l: "ad < length (heap ?h)"
    using registered_entry(2) [OF assms(1)] .
  have e: "?h' = send (remove_at ?h ws (ip, ad)) ws (UnsubscribedMsg ip)"
    using assms(1,3) by (simp add: on_message_unsubscribe)
  have s: "subscriptions ?h' = filter (\<lambda>p. fst p \<noteq> ip) (subscriptions ?h)"
    and t: "timers ?h' = filter (\<lambda>t. fst t \<noteq> timer (heap ?h ! ad)) (timers ?h)"
    using assms(2) by (simp_all add: e send_def remove_at_eq [OF assms(1) l] set_delete_last)
  show 1: "map_of (subscriptions ?h') ip = None"
    by (auto simp: s map_of_eq_None_iff)
  show "timer (heap ?h ! ad) \<notin> timer_ids ?h'"
    by (auto simp: t timer_ids_def)
  have "hub_inv ?h'"
    using hub_inv_run [of "evs @ [Message ws (Unsubscribe ip)]"] by (simp add: run_snoc)
  then have "\<forall>(tid, ip', ad', d) \<in> set (timers ?h'). (ip', ad') \<in> set (subscriptions ?h')"
    by (fastforce simp: hub_inv_def timer_inv_def)
  moreover have "ip \<notin> fst ` set (subscriptions ?h')"
    using 1 by (simp add: map_of_eq_None_iff)
  ultimately show "\<forall>t \<in> set (timers ?h'). fst (snd t) \<noteq> ip"
    by force
qed

lemma unsubscribe_absent:
  assumes "ip \<noteq> []"
    and "map_of (subscriptions (run evs)) ip = None
         \<or> (map_of (subscriptions (run evs)) ip = Some ad \<and> ws \<notin> set (clients (heap (run evs) ! ad)))"
  shows "on_message (run evs) ws (Unsubscribe ip) = send (run evs) ws (UnsubscribedMsg ip)"
proof (cases "map_of (subscriptions (run evs)) ip")
  case None
  then show ?thesis
    using assms(1) by (simp add: on_message_unsubscribe)
next
  case (Some ad')
  then have a: "ad' = ad" and w: "ws \<notin> set (clients (heap (run evs) ! ad))"
    using assms(2) by auto
  have m: "map_of (subscriptions (run evs)) ip = Some ad"
    using Some a by simp
  have l: "ad < length (heap (run evs))" and c: "clients (heap (run evs) ! ad) \<noteq> []"
    using registered_entry [OF m] by blast+
  have "remove_at (run evs) ws (ip, ad) = run evs"
    using c by (simp add: remove_at_eq [OF m l] set_delete_absent [OF w])
  then show ?thesis
    using assms(1) m by (simp add: on_message_unsubscribe)
qed

text \<open>
  C6. In every state the hub reaches, an entry object has subscribers if and only if the
  registry refers to it; in particular the entry registered for an address has a
  non-empty subscriber set. Unsubscribing the only subscriber of an address removes the
  entry from the registry and clears its timer, and no timer that is still set polls
  that address. Unsubscribing a socket that is not in the entry's set, or from an address
  without an entry, changes nothing: the server only writes the \<open>unsubscribed\<close> reply.
\<close>

theorem entry_iff_subscribers:
  "(\<forall>ad < length (heap (run evs)). registered (run evs) ad \<longleftrightarrow> clients (heap (run evs) ! ad) \<noteq> [])
   \<and> (map_of (subscriptions (run evs)) ip = Some ad \<longrightarrow>
         ad < length (heap (run evs)) \<and> clients (heap (run evs) ! ad) \<noteq> [])
   \<and> (map_of (subscriptions (run evs)) ip = Some ad \<and> clients (heap (run evs) ! ad) = [ws] \<and> ip \<noteq> [] \<longrightarrow>
         map_of (subscriptions (on_message (run evs) ws (Unsubscribe ip))) ip = None
         \<and> timer (heap (run evs) ! ad) \<notin> timer_ids (on_message (run evs) ws (Unsubscribe ip))
         \<and> (\<forall>t \<in> set (timers (on_message (run evs) ws (Unsubscribe ip))). fst (snd t) \<noteq> ip))
   \<and> (ip \<noteq> [] \<and> (map_of (subscriptions (run evs)) ip = None
         \<or> (map_of (subscriptions (run evs)) ip = Some ad \<and> ws \<notin> set (clients (heap (run evs) ! ad)))) \<longrightarrow>
         on_message (run evs) ws (Unsubscribe ip) = send (run evs) ws (UnsubscribedMsg ip))"
proof -
  have "reg_inv (run evs)"
    using hub_inv_run [of evs] by (simp add: hub_inv_def)
  then have 1: "\<forall>ad < length (heap (run evs)). registered (run evs) ad \<longleftrightarrow> clients (heap (run evs) ! ad) \<noteq> []"
    by (simp add: reg_inv_def)
  show ?thesis
    using 1 registered_entry(2,3) [of evs ip ad] unsubscribe_last [of evs ip ad ws]
      unsubscribe_absent [of ip evs ad ws]
    by blast
qed

lemma hub_A_gone_eq:
  "hub_A_gone =
     \<lparr>heap = [\<lparr>clients = [], intervalMs = Fin 5000, timer = 0\<rparr>],
      subscriptions = [], timers = [], next_timer = 1, inflight = [],
      outbox = [(1, SubscribedMsg ''10.0.0.5'' (Fin 5000)), (1, UnsubscribedMsg ''10.0.0.5'')]\<rparr>"
  by code_simp

theorem entry_iff_subscribers_witness:
  "clients (heap hub_A ! 0) = [1]
   \<and> subscriptions (on_message hub_A 1 (Unsubscribe ''10.0.0.5'')) = []
   \<and> timers (on_message hub_A 1 (Unsubscribe ''10.0.0.5'')) = []
   \<and> timer (heap hub_A ! 0) \<notin> timer_ids (on_message hub_A 1 (Unsubscribe ''10.0.0.5''))
   \<and> on_message hub_A_gone 1 (Unsubscribe ''10.0.0.5'') = send hub_A_gone 1 (UnsubscribedMsg ''10.0.0.5'')"
proof -
  have g: "on_message hub_A 1 (Unsubscribe ''10.0.0.5'') = hub_A_gone"
    by (simp add: hub_A_gone_def hub_A_def unsub_A_def run_def)
  have s: "map_of (subscriptions hub_A) ''10.0.0.5'' = Some 0 \<and> clients (heap hub_A ! 0) = [1]
           \<and> ''10.0.0.5'' \<noteq> []"
    by (simp add: hub_A_eq)
  have n: "''10.0.0.5'' \<noteq> [] \<and> map_of (subscriptions hub_A_gone) ''10.0.0.5'' = None"
    by (simp add: hub_A_gone_eq)
  have 1: "timer (heap hub_A ! 0) \<notin> timer_ids (on_message hub_A 1 (Unsubscribe ''10.0.0.5''))"
    using entry_iff_subscribers [of "[sub_A]" "''10.0.0.5''" 0 1] s
    unfolding hub_A_def [symmetric] by blast
  have 2: "on_message hub_A_gone 1 (Unsubscribe ''10.0.0.5'') = send hub_A_gone 1 (UnsubscribedMsg ''10.0.0.5'')"
    using entry_iff_subscribers [of "[sub_A, unsub_A]" "''10.0.0.5''" 0 1] n
    unfolding hub_A_gone_def [symmetric] by blast
  have 3: "clients (heap hub_A ! 0) = [1]"
    using s by blast
  have 4: "subscriptions (on_message hub_A 1 (Unsubscribe ''10.0.0.5'')) = []"
    unfolding g by (simp add: hub_A_gone_eq)
  have 5: "timers (on_message hub_A 1 (Unsubscribe ''10.0.0.5'')) = []"
    unfolding g by (simp add: hub_A_gone_eq)
  show ?thesis
    using 1 2 3 4 5 by blast
qed

section \<open>Disconnecting a socket\<close>

lemma set_delete_idem: "set_delete (set_delete xs ws) ws = set_delete xs ws"
  by (simp add: set_delete_def)

lemma set_delete_notin: "ws \<notin> set (set_delete xs ws)"
  by (simp add: set_delete_def)

lemma set_delete_empty_iff: "set_delete xs ws = [] \<longleftrightarrow> set xs \<subseteq> {ws}"
  by (auto simp: set_delete_def filter_empty_conv)

lemma fold_remove_length:
  "length (heap (foldl (\<lambda>h' p. remove_at h' ws p) h ps)) = length (heap h)"
  by (induction ps arbitrary: h) (simp_all add: remove_at_heap)

lemma fold_remove_heap:
  "a < length (heap h) \<Longrightarrow>
   heap (foldl (\<lambda>h' p. remove_at h' ws p) h ps) ! a =
     (if a \<in> snd ` set ps
      then (heap h ! a)\<lparr>clients := set_delete (clients (heap h ! a)) ws\<rparr>
      else heap h ! a)"
proof (induction ps arbitrary: h)
  case Nil
  then show ?case by simp
next
  case (Cons p ps)
  have l: "a < length (heap (remove_at h ws p))"
    using Cons.prems by (simp add: remove_at_heap)
  have s: "heap (remove_at h ws p) ! a =
             (if a = snd p then (heap h ! a)\<lparr>clients := set_delete (clients (heap h ! a)) ws\<rparr>
              else heap h ! a)"
    using Cons.prems by (simp add: remove_at_heap nth_list_update)
  show ?case
    using Cons.IH [OF l] s by (auto simp: set_delete_idem)
qed

lemma fold_remove_subs_subset:
  "set (subscriptions (foldl (\<lambda>h' p. remove_at h' ws p) h ps)) \<subseteq> set (subscriptions h)"
proof (induction ps arbitrary: h)
  case Nil
  then show ?case by simp
next
  case (Cons p ps)
  show ?case
    using Cons.IH [of "remove_at h ws p"] remove_at_subs_subset [of h ws p] by auto
qed

lemma fold_remove_timers_subset:
  "set (timers (foldl (\<lambda>h' p. remove_at h' ws p) h ps)) \<subseteq> set (timers h)"
proof (induction ps arbitrary: h)
  case Nil
  then show ?case by simp
next
  case (Cons p ps)
  show ?case
    using Cons.IH [of "remove_at h ws p"] remove_at_timers_subset [of h ws p] by auto
qed

lemma timer_inv_set:
  assumes "hub_inv h" "(tid, ip, ad, d) \<in> set (timers h)"
  shows "(ip, ad) \<in> set (subscriptions h)" and "timer (heap h ! ad) = tid"
proof -
  have "\<forall>(tid, ip, ad, d) \<in> set (timers h). (ip, ad) \<in> set (subscriptions h) \<and> timer (heap h ! ad) = tid"
    using assms(1) by (simp add: hub_inv_def timer_inv_def)
  then have "(ip, ad) \<in> set (subscriptions h) \<and> timer (heap h ! ad) = tid"
    using assms(2) by auto
  then show "(ip, ad) \<in> set (subscriptions h)" and "timer (heap h ! ad) = tid"
    by simp_all
qed

lemma timer_inv_registered:
  assumes "hub_inv h" "(ip, ad) \<in> set (subscriptions h)"
  shows "\<exists>d. (timer (heap h ! ad), ip, ad, d) \<in> set (timers h)"
proof -
  have "\<forall>(ip, ad) \<in> set (subscriptions h). \<exists>d. (timer (heap h ! ad), ip, ad, d) \<in> set (timers h)"
    using assms(1) by (simp add: hub_inv_def timer_inv_def)
  then show ?thesis
    using assms(2) by auto
qed

lemma reg_inv_bound:
  assumes "hub_inv h" "(ip, ad) \<in> set (subscriptions h)"
  shows "ad < length (heap h)"
proof -
  have "\<forall>(ip, ad) \<in> set (subscriptions h). ad < length (heap h)"
    using assms(1) by (simp add: hub_inv_def reg_inv_def)
  then show ?thesis
    using assms(2) by auto
qed

lemma reg_inv_clients:
  "hub_inv h \<Longrightarrow> a < length (heap h) \<Longrightarrow> (clients (heap h ! a) \<noteq> []) = registered h a"
  by (simp add: hub_inv_def reg_inv_def)

lemma on_close_length: "length (heap (on_close h ws)) = length (heap h)"
  by (simp add: on_close_fold fold_remove_length)

lemma on_close_entry:
  assumes "hub_inv h" "(ip, ad) \<in> set (subscriptions h)"
  shows "heap (on_close h ws) ! ad = (heap h ! ad)\<lparr>clients := set_delete (clients (heap h ! ad)) ws\<rparr>"
proof -
  have "ad < length (heap h)"
    using assms by (rule reg_inv_bound)
  moreover have "ad \<in> snd ` set (subscriptions h)"
    using assms(2) by force
  ultimately show ?thesis
    by (simp add: on_close_fold fold_remove_heap)
qed

lemma on_close_no_socket:
  assumes "hub_inv h" "a < length (heap (on_close h ws))"
  shows "ws \<notin> set (clients (heap (on_close h ws) ! a))"
proof -
  have l: "a < length (heap h)"
    using assms(2) by (simp add: on_close_fold fold_remove_length)
  show ?thesis
  proof (cases "a \<in> snd ` set (subscriptions h)")
    case True
    then show ?thesis
      using l by (simp add: on_close_fold fold_remove_heap set_delete_notin)
  next
    case False
    then have "\<not> registered h a"
      by (simp add: registered_def)
    then have "clients (heap h ! a) = []"
      using reg_inv_clients [OF assms(1) l] by blast
    then show ?thesis
      using l False by (simp add: on_close_fold fold_remove_heap)
  qed
qed

lemma on_close_emptied:
  assumes "hub_inv h" "(ip, ad) \<in> set (subscriptions h)" "set (clients (heap h ! ad)) \<subseteq> {ws}"
  shows "ip \<notin> fst ` set (subscriptions (on_close h ws))"
    and "timer (heap h ! ad) \<notin> timer_ids (on_close h ws)"
proof -
  let ?h' = "on_close h ws"
  have i': "hub_inv ?h'"
    using assms(1) by (rule hub_inv_on_close)
  have l: "ad < length (heap h)"
    using assms(1,2) by (rule reg_inv_bound)
  have "clients (heap ?h' ! ad) = []"
    using assms(3) by (simp add: on_close_entry [OF assms(1,2)] set_delete_empty_iff)
  then have nr: "\<not> registered ?h' ad"
    using reg_inv_clients [OF i', of ad] l by (simp add: on_close_length)
  have sub: "set (subscriptions ?h') \<subseteq> set (subscriptions h)"
    by (simp add: on_close_fold fold_remove_subs_subset)
  have df: "distinct (map fst (subscriptions h))"
    using assms(1) by (simp add: hub_inv_def reg_inv_def)
  have gone: "(ip, ad) \<notin> set (subscriptions ?h')"
    using nr by (force simp: registered_def)
  show "ip \<notin> fst ` set (subscriptions ?h')"
  proof
    assume "ip \<in> fst ` set (subscriptions ?h')"
    then obtain ad' where m: "(ip, ad') \<in> set (subscriptions ?h')"
      by force
    then have "(ip, ad') \<in> set (subscriptions h)"
      using sub by blast
    then have "ad' = ad"
      using reg_unique_ad [OF df assms(2)] by blast
    then show False
      using m gone by simp
  qed
  show "timer (heap h ! ad) \<notin> timer_ids ?h'"
  proof
    assume "timer (heap h ! ad) \<in> timer_ids ?h'"
    then obtain ip' ad' d where m: "(timer (heap h ! ad), ip', ad', d) \<in> set (timers ?h')"
      by (force simp: timer_ids_def)
    then have o: "(timer (heap h ! ad), ip', ad', d) \<in> set (timers h)"
      using fold_remove_timers_subset [of ws h "subscriptions h"] by (auto simp: on_close_fold)
    have t: "timer_inv h"
      using assms(1) by (simp add: hub_inv_def)
    have s: "(ip', ad') \<in> set (subscriptions h)" and e: "timer (heap h ! ad') = timer (heap h ! ad)"
      using timer_inv_set [OF assms(1) o] by blast+
    have "ip' = ip \<and> ad' = ad"
      using timer_of_registered [OF t assms(2) s e] .
    moreover have "(ip', ad') \<in> set (subscriptions ?h')"
      using timer_inv_set(1) [OF i' m] .
    ultimately show False
      using gone by simp
  qed
qed

lemma on_close_kept:
  assumes "hub_inv h" "(ip, ad) \<in> set (subscriptions h)" "\<not> set (clients (heap h ! ad)) \<subseteq> {ws}"
  shows "(ip, ad) \<in> set (subscriptions (on_close h ws))"
    and "timer (heap h ! ad) \<in> timer_ids (on_close h ws)"
proof -
  let ?h' = "on_close h ws"
  have i': "hub_inv ?h'"
    using assms(1) by (rule hub_inv_on_close)
  have l: "ad < length (heap h)"
    using assms(1,2) by (rule reg_inv_bound)
  have e: "heap ?h' ! ad = (heap h ! ad)\<lparr>clients := set_delete (clients (heap h ! ad)) ws\<rparr>"
    by (rule on_close_entry [OF assms(1,2)])
  have "clients (heap ?h' ! ad) \<noteq> []"
    using assms(3) by (simp add: e set_delete_empty_iff)
  then have "registered ?h' ad"
    using reg_inv_clients [OF i', of ad] l by (simp add: on_close_length)
  then obtain ip' where m: "(ip', ad) \<in> set (subscriptions ?h')"
    by (force simp: registered_def)
  then have m': "(ip', ad) \<in> set (subscriptions h)"
    using fold_remove_subs_subset [of ws h "subscriptions h"] by (auto simp: on_close_fold)
  have ds: "distinct (map snd (subscriptions h))"
    using assms(1) by (simp add: hub_inv_def reg_inv_def)
  have "ip' = ip"
    using reg_unique_ip [OF ds assms(2) m'] .
  then show k: "(ip, ad) \<in> set (subscriptions ?h')"
    using m by simp
  obtain d where "(timer (heap ?h' ! ad), ip, ad, d) \<in> set (timers ?h')"
    using timer_inv_registered [OF i' k] by blast
  then show "timer (heap h ! ad) \<in> timer_ids ?h'"
    by (force simp: e timer_ids_def)
qed

text \<open>
  C8. After the close handler has run for a socket, in any state the hub reaches: the
  socket is in no entry's subscriber set; no entry is added and no entry object is
  lost; every registered entry whose subscribers were only that socket has left the
  registry and its timer is cleared; every other registered entry is still registered
  under its address, with the same interval and timer, its timer still set, and its
  subscriber set without the socket.
\<close>

theorem close_removes_everywhere:
  "(\<forall>a < length (heap (on_close (run evs) ws)). ws \<notin> set (clients (heap (on_close (run evs) ws) ! a)))
   \<and> length (heap (on_close (run evs) ws)) = length (heap (run evs))
   \<and> set (subscriptions (on_close (run evs) ws)) \<subseteq> set (subscriptions (run evs))
   \<and> (\<forall>(ip, ad) \<in> set (subscriptions (run evs)).
        if set (clients (heap (run evs) ! ad)) \<subseteq> {ws}
        then ip \<notin> fst ` set (subscriptions (on_close (run evs) ws))
             \<and> timer (heap (run evs) ! ad) \<notin> timer_ids (on_close (run evs) ws)
        else (ip, ad) \<in> set (subscriptions (on_close (run evs) ws))
             \<and> heap (on_close (run evs) ws) ! ad =
                 (heap (run evs) ! ad)\<lparr>clients := set_delete (clients (heap (run evs) ! ad)) ws\<rparr>
             \<and> timer (heap (run evs) ! ad) \<in> timer_ids (on_close (run evs) ws))"
proof -
  have i: "hub_inv (run evs)"
    by (rule hub_inv_run)
  have 1: "\<forall>a < length (heap (on_close (run evs) ws)). ws \<notin> set (clients (heap (on_close (run evs) ws) ! a))"
    using on_close_no_socket [OF i] by blast
  have 2: "length (heap (on_close (run evs) ws)) = length (heap (run evs))"
    by (simp add: on_close_fold fold_remove_length)
  have 3: "set (subscriptions (on_close (run evs) ws)) \<subseteq> set (subscriptions (run evs))"
    by (simp add: on_close_fold fold_remove_subs_subset)
  have 4: "\<forall>(ip, ad) \<in> set (subscriptions (run evs)).
        if set (clients (heap (run evs) ! ad)) \<subseteq> {ws}
        then ip \<notin> fst ` set (subscriptions (on_close (run evs) ws))
             \<and> timer (heap (run evs) ! ad) \<notin> timer_ids (on_close (run evs) ws)
        else (ip, ad) \<in> set (subscriptions (on_close (run evs) ws))
             \<and> heap (on_close (run evs) ws) ! ad =
                 (heap (run evs) ! ad)\<lparr>clients := set_delete (clients (heap (run evs) ! ad)) ws\<rparr>
             \<and> timer (heap (run evs) ! ad) \<in> timer_ids (on_close (run evs) ws)"
  proof (clarify)
    fix ip ad
    assume m: "(ip, ad) \<in> set (subscriptions (run evs))"
    show "if set (clients (heap (run evs) ! ad)) \<subseteq> {ws}
        then ip \<notin> fst ` set (subscriptions (on_close (run evs) ws))
             \<and> timer (heap (run evs) ! ad) \<notin> timer_ids (on_close (run evs) ws)
        else (ip, ad) \<in> set (subscriptions (on_close (run evs) ws))
             \<and> heap (on_close (run evs) ws) ! ad =
                 (heap (run evs) ! ad)\<lparr>clients := set_delete (clients (heap (run evs) ! ad)) ws\<rparr>
             \<and> timer (heap (run evs) ! ad) \<in> timer_ids (on_close (run evs) ws)"
    proof (cases "set (clients (heap (run evs) ! ad)) \<subseteq> {ws}")
      case True
      then show ?thesis
        using on_close_emptied [OF i m True] by simp
    next
      case False
      then show ?thesis
        using on_close_kept [OF i m False] on_close_entry [OF i m] by simp
    qed
  qed
  show ?thesis
    using 1 2 3 4 by (intro conjI)
qed

lemma hub_ABC_eq:
  "hub_ABC =
     \<lparr>heap = [\<lparr>clients = [1, 2], intervalMs = Fin 2000, timer = 1\<rparr>,
              \<lparr>clients = [1], intervalMs = Fin 1000, timer = 2\<rparr>],
      subscriptions = [(''10.0.0.5'', 0), (''10.0.0.9'', 1)],
      timers = [(1, ''10.0.0.5'', 0, Fin 2000), (2, ''10.0.0.9'', 1, Fin 1000)],
      next_timer = 3, inflight = [],
      outbox = [(1, SubscribedMsg ''10.0.0.5'' (Fin 5000)), (2, SubscribedMsg ''10.0.0.5'' (Fin 2000)),
                (1, SubscribedMsg ''10.0.0.9'' (Fin 1000))]\<rparr>"
  by code_simp

lemma hub_ABC_closed:
  "on_close hub_ABC 1 =
     \<lparr>heap = [\<lparr>clients = [2], intervalMs = Fin 2000, timer = 1\<rparr>,
              \<lparr>clients = [], intervalMs = Fin 1000, timer = 2\<rparr>],
      subscriptions = [(''10.0.0.5'', 0)],
      timers = [(1, ''10.0.0.5'', 0, Fin 2000)],
      next_timer = 3, inflight = [],
      outbox = [(1, SubscribedMsg ''10.0.0.5'' (Fin 5000)), (2, SubscribedMsg ''10.0.0.5'' (Fin 2000)),
                (1, SubscribedMsg ''10.0.0.9'' (Fin 1000))]\<rparr>"
  by code_simp

theorem close_removes_everywhere_witness:
  "subscriptions hub_ABC = [(''10.0.0.5'', 0), (''10.0.0.9'', 1)]
   \<and> clients (heap hub_ABC ! 0) = [1, 2] \<and> clients (heap hub_ABC ! 1) = [1]
   \<and> subscriptions (on_close hub_ABC 1) = [(''10.0.0.5'', 0)]
   \<and> clients (heap (on_close hub_ABC 1) ! 0) = [2]
   \<and> ''10.0.0.9'' \<notin> fst ` set (subscriptions (on_close hub_ABC 1))
   \<and> timer (heap hub_ABC ! 1) \<notin> timer_ids (on_close hub_ABC 1)
   \<and> timer (heap hub_ABC ! 0) \<in> timer_ids (on_close hub_ABC 1)"
proof -
  have m: "(''10.0.0.9'', 1) \<in> set (subscriptions hub_ABC) \<and> set (clients (heap hub_ABC ! 1)) \<subseteq> {1}"
    by (simp add: hub_ABC_eq)
  have k: "(''10.0.0.5'', 0) \<in> set (subscriptions hub_ABC) \<and> \<not> set (clients (heap hub_ABC ! 0)) \<subseteq> {1}"
    by (simp add: hub_ABC_eq)
  have t: "\<forall>(ip, ad) \<in> set (subscriptions hub_ABC).
        if set (clients (heap hub_ABC ! ad)) \<subseteq> {1}
        then ip \<notin> fst ` set (subscriptions (on_close hub_ABC 1))
             \<and> timer (heap hub_ABC ! ad) \<notin> timer_ids (on_close hub_ABC 1)
        else (ip, ad) \<in> set (subscriptions (on_close hub_ABC 1))
             \<and> heap (on_close hub_ABC 1) ! ad =
                 (heap hub_ABC ! ad)\<lparr>clients := set_delete (clients (heap hub_ABC ! ad)) 1\<rparr>
             \<and> timer (heap hub_ABC ! ad) \<in> timer_ids (on_close hub_ABC 1)"
    using close_removes_everywhere [of "[sub_A, sub_B, sub_C]" 1, folded hub_ABC_def]
    by (elim conjE)
  have 1: "''10.0.0.9'' \<notin> fst ` set (subscriptions (on_close hub_ABC 1))
           \<and> timer (heap hub_ABC ! 1) \<notin> timer_ids (on_close hub_ABC 1)"
    using bspec [OF t, of "(''10.0.0.9'', 1)"] m by simp
  have 2: "timer (heap hub_ABC ! 0) \<in> timer_ids (on_close hub_ABC 1)"
    using bspec [OF t, of "(''10.0.0.5'', 0)"] k by simp
  have 3: "subscriptions hub_ABC = [(''10.0.0.5'', 0), (''10.0.0.9'', 1)]
           \<and> clients (heap hub_ABC ! 0) = [1, 2] \<and> clients (heap hub_ABC ! 1) = [1]"
    by (simp add: hub_ABC_eq)
  have 4: "subscriptions (on_close hub_ABC 1) = [(''10.0.0.5'', 0)]
           \<and> clients (heap (on_close hub_ABC 1) ! 0) = [2]"
    unfolding hub_ABC_closed by simp
  show ?thesis
    using 1 2 3 4 by (elim conjE, intro conjI)
qed

section \<open>The polling interval of an entry\<close>














end
